theory Spec2Isabelle
  imports Main "HOL-Library.Multiset"
begin

section \<open>Data model of \<^verbatim>\<open>playlist.c\<close>\<close>

text \<open>
  The playlist container is read through the libspotify calls
  \<^verbatim>\<open>sp_playlistcontainer_playlist_type\<close>, \<^verbatim>\<open>sp_playlist_is_loaded\<close>,
  \<^verbatim>\<open>sp_playlist_name\<close> and \<^verbatim>\<open>sp_playlistcontainer_playlist_folder_name\<close>.
  One container slot is an \<open>entry\<close>: the four cases of \<^verbatim>\<open>sp_playlist_type\<close>,
  a playlist carrying its loaded flag and its name, a folder start carrying its name.
\<close>

datatype entry =
    Playlist bool string
  | StartFolder string
  | EndFolder
  | Placeholder

text \<open>\<^verbatim>\<open>struct s_playlist_item\<close>; the C \<^verbatim>\<open>int\<close> fields never leave the range
  \<open>-1 .. num_playlists\<close>, so they are unbounded integers here.\<close>

record playlist_item =
  index :: int
  end_index :: int
  name :: string

text \<open>
  \<^verbatim>\<open>struct s_node\<close>. A \<^verbatim>\<open>node *\<close> is the head of a chain linked by \<^verbatim>\<open>next\<close>; such
  a chain is a list of nodes here, \<^verbatim>\<open>NULL\<close> being the empty list, so that
  \<^verbatim>\<open>head->children == NULL\<close> reads \<open>children head = []\<close> and \<^verbatim>\<open>head->next\<close> is the
  tail of the list. The \<^verbatim>\<open>parent\<close> pointer is used by the builder only and is kept
  in the builder's state.
\<close>

datatype node = Node (item: playlist_item) (children: "node list")

datatype fault = NullPointerDereference | UninitialisedRead | OutOfBoundsAccess

subsection \<open>\<^verbatim>\<open>strcmp\<close>\<close>

text \<open>The C library's \<^verbatim>\<open>strcmp\<close>: bytes compared as unsigned values, the first
  difference decides, a proper prefix is smaller. Only the sign of the result is
  specified by the C standard; it is \<open>-1\<close>, \<open>0\<close> or \<open>1\<close> here.\<close>

fun strcmp :: "string \<Rightarrow> string \<Rightarrow> int" where
  "strcmp [] [] = 0"
| "strcmp [] (b # bs) = -1"
| "strcmp (a # as) [] = 1"
| "strcmp (a # as) (b # bs) =
     (if a = b then strcmp as bs
      else if (of_char a :: nat) < of_char b then -1 else 1)"

subsection \<open>Merge sort\<close>

text \<open>\<^verbatim>\<open>merge\<close>: the head of the first chain is taken only when its name is strictly
  smaller.\<close>

fun merge :: "node list \<Rightarrow> node list \<Rightarrow> node list" where
  "merge [] head_two = head_two"
| "merge head_one [] = head_one"
| "merge (one # next_one) (two # next_two) =
     (if strcmp (name (item one)) (name (item two)) < 0
      then one # merge next_one (two # next_two)
      else two # merge (one # next_one) next_two)"

text \<open>
  The \<^verbatim>\<open>while\<close> loop of \<^verbatim>\<open>merge_sort\<close>. \<open>front\<close> holds the nodes the pointer
  \<^verbatim>\<open>head\<close> has left behind, the second argument is the chain from the pointer
  \<^verbatim>\<open>head\<close> on, \<open>head_two\<close> the chain from the pointer \<^verbatim>\<open>head_two\<close> on. Each
  round executes \<^verbatim>\<open>head = head->next; head_two = head->next->next;\<close>, which
  dereferences the new \<^verbatim>\<open>head\<close> and its successor: \<open>None\<close> is returned where one
  of them is \<^verbatim>\<open>NULL\<close>. After the loop, \<^verbatim>\<open>head_two = head->next; head->next = NULL\<close>
  cuts the chain behind \<^verbatim>\<open>head\<close>: the result is the pair of the two chains.
\<close>

fun split_loop ::
  "node list \<Rightarrow> node list \<Rightarrow> node list \<Rightarrow> (node list \<times> node list) option" where
  "split_loop front [] head_two = None"
| "split_loop front (h # next) head_two =
     (if head_two \<noteq> [] \<and> tl head_two \<noteq> []
      then (case next of
              [] \<Rightarrow> None
            | [n] \<Rightarrow> None
            | n # m # after \<Rightarrow> split_loop (front @ [h]) next after)
      else Some (front @ [h], next))"

text \<open>Inside \<^verbatim>\<open>merge_sort\<close> the pointer \<^verbatim>\<open>head_two\<close> is \<^verbatim>\<open>head->next\<close> before the
  first round and \<^verbatim>\<open>head->next->next\<close> after each round, so the loop never meets
  \<^verbatim>\<open>NULL\<close> where it dereferences, and it cuts the chain in two non-empty parts.\<close>

lemma split_loop_defined:
  "head_two = nxt \<or> head_two = tl nxt \<Longrightarrow>
   \<exists>l r. split_loop front (h # nxt) head_two = Some (l, r) \<and> l @ r = front @ h # nxt
     \<and> l \<noteq> [] \<and> (nxt \<noteq> [] \<longrightarrow> r \<noteq> [])"
proof (induction nxt arbitrary: front h head_two)
  case Nil
  then show ?case by auto
next
  case (Cons n nxt')
  show ?case
  proof (cases "head_two \<noteq> [] \<and> tl head_two \<noteq> []")
    case False
    then show ?thesis by auto
  next
    case True
    with Cons.prems obtain m after where nxt': "nxt' = m # after"
      by (cases nxt') auto
    have "tl nxt' = after \<or> tl nxt' = tl after" using nxt' by simp
    from Cons.IH [of "tl nxt'" "front @ [h]" n, OF disjI2 [OF refl]]
    obtain l r where "split_loop (front @ [h]) (n # nxt') (tl nxt') = Some (l, r)"
      and "l @ r = (front @ [h]) @ n # nxt'" and "l \<noteq> []" and "r \<noteq> []"
      using nxt' by auto
    with True nxt' show ?thesis by auto
  qed
qed

lemma split_loop_cut:
  assumes "nxt \<noteq> []" and "split_loop [] (h # nxt) nxt = Some (l, r)"
  shows "l @ r = h # nxt" and "l \<noteq> []" and "r \<noteq> []"
    and "length l < Suc (length nxt)" and "length r < Suc (length nxt)"
proof -
  from split_loop_defined [of nxt nxt "[]" h] assms
  show cut: "l @ r = h # nxt" and l: "l \<noteq> []" and r: "r \<noteq> []" by auto
  from cut have "length l + length r = Suc (length nxt)"
    by (metis length_append length_Cons)
  with l r show "length l < Suc (length nxt)" and "length r < Suc (length nxt)"
    by (cases r; cases l; simp)+
qed

function merge_sort :: "node list \<Rightarrow> node list" where
  "merge_sort head =
     (if head = [] \<or> tl head = [] then head
      else (case split_loop [] head (tl head) of
              Some (head_one, head_two) \<Rightarrow> merge (merge_sort head_one) (merge_sort head_two)
            | None \<Rightarrow> head))"
  by pat_completeness auto
termination
proof (relation "measure length", goal_cases)
  case 1
  show ?case by simp
next
  case (2 head x2 x y)
  then obtain h nxt where "head = h # nxt" "nxt \<noteq> []" by (cases head) auto
  with 2 split_loop_cut(4) [of nxt h x y] show ?case by simp
next
  case (3 head x2 x y)
  then obtain h nxt where "head = h # nxt" "nxt \<noteq> []" by (cases head) auto
  with 3 split_loop_cut(5) [of nxt h x y] show ?case by simp
qed

declare merge_sort.simps [simp del]

text \<open>The branch \<open>None\<close> of \<open>merge_sort\<close> is never taken: \<open>split_loop_defined\<close> gives the
  two parts for every chain of two nodes or more.\<close>

text \<open>
  \<^verbatim>\<open>sort_list\<close>: the \<^verbatim>\<open>for\<close> loop replaces the children of every node of the chain
  that has children by their sorted chain, then the chain itself is sorted.
\<close>

function sort_list :: "node list \<Rightarrow> node list" where
  "sort_list head =
     merge_sort (map (\<lambda>n. if children n \<noteq> [] then Node (item n) (sort_list (children n)) else n)
       head)"
  by pat_completeness auto
termination
proof (relation "measure (size_list size)", goal_cases)
  case 1
  show ?case by simp
next
  case (2 head n)
  then have "size n < Suc (size_list size head)"
    by (simp add: size_list_estimation' less_Suc_eq_le)
  then show ?case by (cases n) simp
qed

declare sort_list.simps [simp del]

subsection \<open>Flattening into the \<^verbatim>\<open>reorder\<close> array\<close>

text \<open>
  The array \<^verbatim>\<open>reorder\<close> comes from \<^verbatim>\<open>malloc\<close>: a slot is \<open>None\<close> until it is
  written. \<open>store\<close> is \<^verbatim>\<open>reorder[(*idx)++] = v\<close>, \<open>fetch\<close> is the read of
  \<^verbatim>\<open>reorder[i]\<close>.
\<close>

type_synonym int_array = "int option list"

definition store :: "int_array \<times> nat \<Rightarrow> int \<Rightarrow> fault + int_array \<times> nat" where
  "store st v =
     (case st of (reorder, idx) \<Rightarrow>
        if idx < length reorder then Inr (reorder[idx := Some v], idx + 1)
        else Inl OutOfBoundsAccess)"

definition fetch :: "int_array \<Rightarrow> nat \<Rightarrow> fault + int" where
  "fetch reorder i =
     (if i < length reorder
      then (case reorder ! i of None \<Rightarrow> Inl UninitialisedRead | Some v \<Rightarrow> Inr v)
      else Inl OutOfBoundsAccess)"

text \<open>\<^verbatim>\<open>_flatten_list\<close>, with the array and \<^verbatim>\<open>*idx\<close> passed through.\<close>

function flatten_list_rec :: "node list \<Rightarrow> int_array \<times> nat \<Rightarrow> fault + int_array \<times> nat" where
  "flatten_list_rec [] st = Inl NullPointerDereference"
| "flatten_list_rec (head # next) st =
     (case store st (index (item head)) of
        Inl f \<Rightarrow> Inl f
      | Inr st1 \<Rightarrow>
         (case (if children head \<noteq> []
                then (case flatten_list_rec (children head) st1 of
                        Inl f \<Rightarrow> Inl f
                      | Inr st2 \<Rightarrow> store st2 (end_index (item head)))
                else Inr st1) of
            Inl f \<Rightarrow> Inl f
          | Inr st3 \<Rightarrow> if next \<noteq> [] then flatten_list_rec next st3 else Inr st3))"
  by pat_completeness auto
termination
proof (relation "measure (\<lambda>(head, st). size_list size head)", goal_cases)
  case 1
  show ?case by simp
next
  case (2 head nxt st st1)
  show ?case by (cases head) simp
next
  case (3 head nxt st st1 st3)
  show ?case by simp
qed

definition flatten_list :: "node list \<Rightarrow> int_array \<Rightarrow> fault + int_array" where
  "flatten_list head reorder =
     (case flatten_list_rec head (reorder, 0) of Inl f \<Rightarrow> Inl f | Inr (reorder', idx) \<Rightarrow> Inr reorder')"

subsection \<open>\<^verbatim>\<open>recalculate_indexes\<close>\<close>

text \<open>The parameter \<^verbatim>\<open>size\<close> is \<open>sz\<close> here.\<close>

function recalculate_loop :: "int_array \<Rightarrow> nat \<Rightarrow> int \<Rightarrow> nat \<Rightarrow> fault + int_array" where
  "recalculate_loop reorder sz original_index i =
     (if i < sz
      then (case fetch reorder i of
              Inl f \<Rightarrow> Inl f
            | Inr v \<Rightarrow>
                recalculate_loop
                  (if v < original_index then reorder[i := Some (v + 1)] else reorder)
                  sz original_index (i + 1))
      else Inr reorder)"
  by pat_completeness auto
termination
  by (relation "measure (\<lambda>(reorder, sz, original_index, i). sz - i)") auto

declare recalculate_loop.simps [simp del]

definition recalculate_indexes :: "int_array \<Rightarrow> nat \<Rightarrow> nat \<Rightarrow> fault + int_array" where
  "recalculate_indexes reorder sz moved =
     (case fetch reorder moved of
        Inl f \<Rightarrow> Inl f
      | Inr original_index \<Rightarrow> recalculate_loop reorder sz original_index moved)"

subsection \<open>Building the tree\<close>

definition create_playlist_item :: "int \<Rightarrow> string \<Rightarrow> playlist_item" where
  "create_playlist_item i nm = \<lparr>index = i, end_index = -1, name = nm\<rparr>"

text \<open>
  The first loop of \<^verbatim>\<open>sort_playlists\<close> keeps three pointers into the tree under
  construction: \<^verbatim>\<open>items\<close>, \<^verbatim>\<open>parent\<close> and \<^verbatim>\<open>previous\<close>. The state below holds
  the same tree, cut along the path from the root to \<^verbatim>\<open>parent\<close>:
  \<^item> \<open>chain\<close> is the chain of the current level (\<^verbatim>\<open>parent->children\<close>, or \<^verbatim>\<open>items\<close>
    when \<^verbatim>\<open>parent\<close> is \<^verbatim>\<open>NULL\<close>); \<^verbatim>\<open>previous\<close> points to its last node and is
    \<^verbatim>\<open>NULL\<close> when it is empty;
  \<^item> \<open>parents\<close> lists the open folders, \<^verbatim>\<open>parent\<close> first, then \<^verbatim>\<open>parent->parent\<close> and
    so on, each with the nodes that precede it in its own chain;
  \<^item> \<open>not_loaded\<close> is the counter of the same name.

  \<^verbatim>\<open>create_node (previous, parent, item)\<close> appends the new node to the chain of the
  current level: through \<^verbatim>\<open>previous->next\<close>, or as \<^verbatim>\<open>parent->children\<close> (or
  \<^verbatim>\<open>items\<close>) when the chain is empty. \<^verbatim>\<open>SP_PLAYLIST_TYPE_START_FOLDER\<close> makes the
  new node the \<^verbatim>\<open>parent\<close> and empties \<^verbatim>\<open>previous\<close>. \<^verbatim>\<open>SP_PLAYLIST_TYPE_END_FOLDER\<close>
  executes \<^verbatim>\<open>previous = parent; previous->item->end_index = i; parent = parent->parent\<close>,
  which dereferences \<^verbatim>\<open>parent\<close> without a test.
\<close>

record builder =
  chain :: "node list"
  parents :: "(playlist_item \<times> node list) list"
  not_loaded :: int

fun build_loop :: "entry list \<Rightarrow> int \<Rightarrow> builder \<Rightarrow> fault + builder" where
  "build_loop [] i b = Inr b"
| "build_loop (Playlist is_loaded nm # pc) i b =
     (if \<not> is_loaded then build_loop pc (i + 1) (b\<lparr>not_loaded := not_loaded b + 1\<rparr>)
      else build_loop pc (i + 1) (b\<lparr>chain := chain b @ [Node (create_playlist_item i nm) []]\<rparr>))"
| "build_loop (StartFolder nm # pc) i b =
     build_loop pc (i + 1)
       (b\<lparr>parents := (create_playlist_item i nm, chain b) # parents b, chain := []\<rparr>)"
| "build_loop (EndFolder # pc) i b =
     (case parents b of
        [] \<Rightarrow> Inl NullPointerDereference
      | (p, before) # outer \<Rightarrow>
          build_loop pc (i + 1)
            (b\<lparr>chain := before @ [Node (p\<lparr>end_index := i\<rparr>) (chain b)], parents := outer\<rparr>))"
| "build_loop (Placeholder # pc) i b = build_loop pc (i + 1) b"

text \<open>The chain \<^verbatim>\<open>items\<close> points to after the loop: folders still open keep the
  children they have and the \<^verbatim>\<open>end_index\<close> of \<open>-1\<close>.\<close>

fun items_of :: "node list \<Rightarrow> (playlist_item \<times> node list) list \<Rightarrow> node list" where
  "items_of ch [] = ch"
| "items_of ch ((p, before) # outer) = items_of (before @ [Node p ch]) outer"

subsection \<open>\<^verbatim>\<open>sort_playlists\<close>\<close>

text \<open>
  The second loop. A call of \<^verbatim>\<open>sp_playlistcontainer_move_playlist (pc, from, to)\<close> is
  recorded as the pair \<open>(from, to)\<close>. The result is the list of the calls made and the
  fault that ended the loop, if one did.
\<close>

function move_loop :: "nat \<Rightarrow> nat \<Rightarrow> int_array \<Rightarrow> (int \<times> int) list \<times> fault option" where
  "move_loop i num_playlists reorder =
     (if i < num_playlists
      then (case fetch reorder i of
              Inl f \<Rightarrow> ([], Some f)
            | Inr from \<Rightarrow>
                if int i \<noteq> from
                then (case recalculate_indexes reorder num_playlists i of
                        Inl f \<Rightarrow> ([(from, int i)], Some f)
                      | Inr reorder' \<Rightarrow>
                          (case move_loop (i + 1) num_playlists reorder' of
                             (ms, out) \<Rightarrow> ((from, int i) # ms, out)))
                else move_loop (i + 1) num_playlists reorder)
      else ([], None))"
  by pat_completeness auto
termination
  by (relation "measure (\<lambda>(i, num_playlists, reorder). num_playlists - i)") auto

declare move_loop.simps [simp del]

text \<open>
  What a run of \<^verbatim>\<open>sort_playlists\<close> does that its caller or the container can observe:
  the calls of \<^verbatim>\<open>sp_playlistcontainer_move_playlist\<close> in order, the count printed by
  \<^verbatim>\<open>ERROR: %d playlists could not be loaded\<close> when that line is printed, and how the
  run ends: it returns a value, or it runs into undefined behaviour.
\<close>

datatype ending = Returned int | Crashed fault

record run =
  moves :: "(int \<times> int) list"
  could_not_be_loaded :: "int option"
  ending :: ending

definition build :: "entry list \<Rightarrow> fault + builder" where
  "build pc = build_loop pc 0 \<lparr>chain = [], parents = [], not_loaded = 0\<rparr>"

definition sort_playlists :: "entry list \<Rightarrow> run" where
  "sort_playlists pc =
     (let num_playlists = length pc in
      case build pc of
        Inl f \<Rightarrow> \<lparr>moves = [], could_not_be_loaded = None, ending = Crashed f\<rparr>
      | Inr b \<Rightarrow>
          if not_loaded b > 0
          then \<lparr>moves = [], could_not_be_loaded = Some (not_loaded b), ending = Returned 1\<rparr>
          else
            (let items = items_of (chain b) (parents b) in
             if items \<noteq> []
             then (case flatten_list (sort_list items) (replicate num_playlists None) of
                     Inl f \<Rightarrow> \<lparr>moves = [], could_not_be_loaded = None, ending = Crashed f\<rparr>
                   | Inr reorder \<Rightarrow>
                       (case move_loop 0 num_playlists reorder of
                          (ms, Some f) \<Rightarrow>
                            \<lparr>moves = ms, could_not_be_loaded = None, ending = Crashed f\<rparr>
                        | (ms, None) \<Rightarrow>
                            \<lparr>moves = ms, could_not_be_loaded = None, ending = Returned 1\<rparr>))
             else \<lparr>moves = [], could_not_be_loaded = None, ending = Returned 1\<rparr>))"

section \<open>Notions of the specification\<close>

text \<open>A chain and, below each of its nodes, the chain of its children have names in
  non-decreasing order: each node's name compares \<open>\<le> 0\<close> with its successor's.\<close>

function levels_sorted :: "node list \<Rightarrow> bool" where
  "levels_sorted head \<longleftrightarrow>
     successively (\<lambda>a b. strcmp (name (item a)) (name (item b)) \<le> 0) head \<and>
     (\<forall>n \<in> set head. levels_sorted (children n))"
  by pat_completeness auto
termination
proof (relation "measure (size_list size)", goal_cases)
  case 1
  show ?case by simp
next
  case (2 head n)
  then have "size n < Suc (size_list size head)"
    by (simp add: size_list_estimation' less_Suc_eq_le)
  then show ?case by (cases n) simp
qed

declare levels_sorted.simps [simp del]

text \<open>
  A tree with the order of its chains forgotten: the nodes of a chain as a multiset, each
  node with its item (\<^verbatim>\<open>index\<close>, \<^verbatim>\<open>end_index\<close>, \<^verbatim>\<open>name\<close>) and the multiset of its
  children. Two trees have the same \<open>bags\<close> exactly when they hold the same nodes under
  the same parents, whatever the order of the siblings.
\<close>

datatype bag_tree = Bag playlist_item "bag_tree multiset"

function bags :: "node list \<Rightarrow> bag_tree multiset" where
  "bags head = mset (map (\<lambda>n. Bag (item n) (bags (children n))) head)"
  by pat_completeness auto
termination
proof (relation "measure (size_list size)", goal_cases)
  case 1
  show ?case by simp
next
  case (2 head n)
  then have "size n < Suc (size_list size head)"
    by (simp add: size_list_estimation' less_Suc_eq_le)
  then show ?case by (cases n) simp
qed

declare bags.simps [simp del]

text \<open>Concrete nodes used as test inputs.\<close>

definition apple0 :: node where
  "apple0 = Node \<lparr>index = 0, end_index = -1, name = ''apple''\<rparr> []"

definition apple1 :: node where
  "apple1 = Node \<lparr>index = 1, end_index = -1, name = ''apple''\<rparr> []"

definition banana2 :: node where
  "banana2 = Node \<lparr>index = 2, end_index = -1, name = ''banana''\<rparr> []"

definition folder3 :: node where
  "folder3 = Node \<lparr>index = 3, end_index = 6, name = ''Zoo''\<rparr>
     [Node \<lparr>index = 4, end_index = -1, name = ''yak''\<rparr> [],
      Node \<lparr>index = 5, end_index = -1, name = ''ant''\<rparr> []]"

text \<open>
  Some \<^verbatim>\<open>SP_PLAYLIST_TYPE_END_FOLDER\<close> entry of the container is met while no folder
  is open; \<open>d\<close> is the number of folders open before the first entry.
\<close>

fun unmatched_end :: "nat \<Rightarrow> entry list \<Rightarrow> bool" where
  "unmatched_end d [] = False"
| "unmatched_end d (StartFolder nm # pc) = unmatched_end (d + 1) pc"
| "unmatched_end d (EndFolder # pc) = (d = 0 \<or> unmatched_end (d - 1) pc)"
| "unmatched_end d (Playlist is_loaded nm # pc) = unmatched_end d pc"
| "unmatched_end d (Placeholder # pc) = unmatched_end d pc"

text \<open>The number of playlists of the container that are not loaded.\<close>

fun unloaded :: "entry list \<Rightarrow> int" where
  "unloaded [] = 0"
| "unloaded (Playlist is_loaded nm # pc) = (if is_loaded then unloaded pc else unloaded pc + 1)"
| "unloaded (e # pc) = unloaded pc"

text \<open>
  One round of the second loop of \<^verbatim>\<open>sort_playlists\<close> as a change of the array, the array
  as it is when slot \<open>i\<close> is reached, the entry the loop reads there, and the move that
  is due at slot \<open>i\<close>: one call when the entry differs from \<open>i\<close>, none when it equals
  \<open>i\<close>.
\<close>

definition slot_round :: "nat \<Rightarrow> int_array \<Rightarrow> nat \<Rightarrow> fault + int_array" where
  "slot_round num_playlists reorder i =
     (case fetch reorder i of
        Inl f \<Rightarrow> Inl f
      | Inr from \<Rightarrow>
          if int i \<noteq> from then recalculate_indexes reorder num_playlists i else Inr reorder)"

fun working_at :: "nat \<Rightarrow> int_array \<Rightarrow> nat \<Rightarrow> fault + int_array" where
  "working_at num_playlists reorder 0 = Inr reorder"
| "working_at num_playlists reorder (Suc i) =
     (case working_at num_playlists reorder i of
        Inl f \<Rightarrow> Inl f
      | Inr w \<Rightarrow> slot_round num_playlists w i)"

definition entry_at :: "nat \<Rightarrow> int_array \<Rightarrow> nat \<Rightarrow> int option" where
  "entry_at num_playlists reorder i =
     (case working_at num_playlists reorder i of
        Inl f \<Rightarrow> None
      | Inr w \<Rightarrow> (case fetch w i of Inl f \<Rightarrow> None | Inr v \<Rightarrow> Some v))"

definition moves_due :: "nat \<Rightarrow> int_array \<Rightarrow> nat \<Rightarrow> (int \<times> int) list" where
  "moves_due num_playlists reorder i =
     (case entry_at num_playlists reorder i of
        None \<Rightarrow> []
      | Some v \<Rightarrow> if v \<noteq> int i then [(v, int i)] else [])"

definition misplaced :: "nat \<Rightarrow> int_array \<Rightarrow> nat \<Rightarrow> bool" where
  "misplaced num_playlists reorder i =
     (case entry_at num_playlists reorder i of None \<Rightarrow> False | Some v \<Rightarrow> v \<noteq> int i)"

text \<open>
  The values \<^verbatim>\<open>_flatten_list\<close> stores for a chain, in the order it stores them, and the
  array after a run of consecutive stores from \<open>idx\<close> on.
\<close>

fun emitted :: "node list \<Rightarrow> int list" where
  "emitted [] = []"
| "emitted (Node it ch # nxt) =
     index it # (if ch \<noteq> [] then emitted ch @ [end_index it] else []) @ emitted nxt"

fun writes :: "int_array \<Rightarrow> nat \<Rightarrow> int list \<Rightarrow> int_array" where
  "writes reorder idx [] = reorder"
| "writes reorder idx (v # vs) = writes (reorder[idx := Some v]) (idx + 1) vs"

text \<open>
  The folder markers of a container are balanced: every folder end closes the innermost
  open folder and no folder is open at the end. \<open>d\<close> is the number of folders open
  before the first entry.
\<close>

fun balanced_from :: "nat \<Rightarrow> entry list \<Rightarrow> bool" where
  "balanced_from d [] = (d = 0)"
| "balanced_from d (StartFolder nm # pc) = balanced_from (d + 1) pc"
| "balanced_from d (EndFolder # pc) = (0 < d \<and> balanced_from (d - 1) pc)"
| "balanced_from d (Playlist is_loaded nm # pc) = balanced_from d pc"
| "balanced_from d (Placeholder # pc) = balanced_from d pc"

definition balanced :: "entry list \<Rightarrow> bool" where
  "balanced pc = balanced_from 0 pc"

text \<open>The entries for which the first loop of \<^verbatim>\<open>sort_playlists\<close> calls
  \<^verbatim>\<open>create_node\<close>: loaded playlists and folder starts.\<close>

fun makes_node :: "entry \<Rightarrow> bool" where
  "makes_node (Playlist is_loaded nm) = is_loaded"
| "makes_node (StartFolder nm) = True"
| "makes_node EndFolder = False"
| "makes_node Placeholder = False"

text \<open>Two intermediate values of \<^verbatim>\<open>sort_playlists\<close>: the chain \<^verbatim>\<open>items\<close> after the
  first loop, and the array \<^verbatim>\<open>reorder\<close> after \<^verbatim>\<open>flatten_list\<close>.\<close>

definition items_built :: "entry list \<Rightarrow> node list" where
  "items_built pc = (case build pc of Inl f \<Rightarrow> [] | Inr b \<Rightarrow> items_of (chain b) (parents b))"

definition flattened :: "entry list \<Rightarrow> fault + int_array" where
  "flattened pc = flatten_list (sort_list (items_built pc)) (replicate (length pc) None)"

text \<open>The entries still to be stored for the open folders: each folder's own index and
  the nodes before it in its chain.\<close>

fun pending :: "(playlist_item \<times> node list) list \<Rightarrow> nat" where
  "pending [] = 0"
| "pending ((p, before) # outer) = 1 + length (emitted before) + pending outer"

text \<open>The target permutation: the values \<^verbatim>\<open>flatten_list\<close> stores for the sorted tree of
  a container.\<close>

definition target :: "entry list \<Rightarrow> int list" where
  "target pc = emitted (sort_list (items_built pc))"

text \<open>The container with its entries put in the order a permutation \<open>t\<close> of their
  positions gives: what the container holds once the moves of a run are applied.\<close>

definition reordered :: "entry list \<Rightarrow> int list \<Rightarrow> entry list" where
  "reordered pc t = map (\<lambda>p. pc ! nat p) t"

text \<open>No folder start of the container is followed at once by a folder end.\<close>

fun no_empty_folder :: "entry list \<Rightarrow> bool" where
  "no_empty_folder [] = True"
| "no_empty_folder (StartFolder nm # EndFolder # pc) = False"
| "no_empty_folder (e # pc) = no_empty_folder pc"

text \<open>
  The container a chain stands for, a node with children being a folder and a node
  without a playlist; the same chain with every \<^verbatim>\<open>index\<close> and \<^verbatim>\<open>end_index\<close> set to the
  position of the node's entries in that container, counted from \<open>i\<close>; and the entries
  the first loop of \<^verbatim>\<open>sort_playlists\<close> has behind it in a given state.
\<close>

fun entries_of :: "node list \<Rightarrow> entry list" where
  "entries_of [] = []"
| "entries_of (Node it ch # nxt) =
     (if ch \<noteq> [] then StartFolder (name it) # entries_of ch @ [EndFolder]
      else [Playlist True (name it)]) @ entries_of nxt"

fun renumber :: "int \<Rightarrow> node list \<Rightarrow> node list" where
  "renumber i [] = []"
| "renumber i (Node it ch # nxt) =
     (if ch \<noteq> []
      then Node \<lparr>index = i, end_index = i + 1 + int (length (entries_of ch)), name = name it\<rparr>
             (renumber (i + 1) ch)
           # renumber (i + 2 + int (length (entries_of ch))) nxt
      else Node \<lparr>index = i, end_index = -1, name = name it\<rparr> [] # renumber (i + 1) nxt)"

fun prefix_of :: "node list \<Rightarrow> (playlist_item \<times> node list) list \<Rightarrow> entry list" where
  "prefix_of ch [] = entries_of ch"
| "prefix_of ch ((p, before) # outer) =
     prefix_of before outer @ StartFolder (name p) # entries_of ch"


text \<open>Valid containers: balanced folder markers, every playlist loaded, no placeholder,
  no folder without an entry.\<close>

definition valid :: "entry list \<Rightarrow> bool" where
  "valid pc \<longleftrightarrow> balanced pc \<and> unloaded pc = 0 \<and> Placeholder \<notin> set pc \<and> no_empty_folder pc"

text \<open>
  A property of nodes holds for every node of a tree, and a property of chains holds for
  the chain at the root (\<open>all_chains\<close>) and for the chain of children of every node
  (\<open>below\<close>).
\<close>

fun all_nodes :: "(node \<Rightarrow> bool) \<Rightarrow> node list \<Rightarrow> bool" where
  "all_nodes Q [] = True"
| "all_nodes Q (Node it ch # nxt) = (Q (Node it ch) \<and> all_nodes Q ch \<and> all_nodes Q nxt)"

fun below :: "(node list \<Rightarrow> bool) \<Rightarrow> node list \<Rightarrow> bool" where
  "below P [] = True"
| "below P (Node it ch # nxt) = (P ch \<and> below P ch \<and> below P nxt)"

definition all_chains :: "(node list \<Rightarrow> bool) \<Rightarrow> node list \<Rightarrow> bool" where
  "all_chains P head \<longleftrightarrow> P head \<and> below P head"

text \<open>No two nodes of one chain have the same name, at any level of the tree.\<close>

definition siblings_distinct :: "node list \<Rightarrow> bool" where
  "siblings_distinct head = all_chains (\<lambda>c. distinct (map (\<lambda>n. name (item n)) c)) head"

text \<open>The strict order of names.\<close>

definition name_lt :: "node \<Rightarrow> node \<Rightarrow> bool" where
  "name_lt a b \<longleftrightarrow> strcmp (name (item a)) (name (item b)) < 0"

text \<open>A node points at entries of the container that fit it: a node without children at
  a loaded playlist of its name, a node with children at a folder start of its name and
  at a folder end.\<close>

definition entry_agrees :: "entry list \<Rightarrow> node \<Rightarrow> bool" where
  "entry_agrees pc n \<longleftrightarrow>
     0 \<le> index (item n) \<and> nat (index (item n)) < length pc \<and>
     (if children n = [] then pc ! nat (index (item n)) = Playlist True (name (item n))
      else pc ! nat (index (item n)) = StartFolder (name (item n)) \<and>
           0 \<le> end_index (item n) \<and> nat (end_index (item n)) < length pc \<and>
           pc ! nat (end_index (item n)) = EndFolder)"

text \<open>The \<open>n\<close> consecutive positions from \<open>i\<close> on.\<close>

definition span :: "int \<Rightarrow> nat \<Rightarrow> int list" where
  "span i n = map (\<lambda>k. i + int k) [0..<n]"

text \<open>What \<^verbatim>\<open>sort_list\<close> leaves unchanged in a node: its item and whether it has
  children.\<close>

definition key :: "node \<Rightarrow> playlist_item \<times> bool" where
  "key n = (item n, children n = [])"

text \<open>
  The move primitive of the container with remove-then-reinsert semantics: the entry at position
  \<open>from\<close> is removed and put back so that it stands at position \<open>to\<close>. This is also
  what the test double \<^verbatim>\<open>move_playlist\<close> of \<^verbatim>\<open>playlist.c\<close> does to its array by
  shifting the entries between the two positions. \<open>apply_moves\<close> applies the calls of
  a run in the order they were made.
\<close>

definition remove_then_reinsert :: "'a list \<Rightarrow> int \<times> int \<Rightarrow> 'a list" where
  "remove_then_reinsert xs m =
     (case m of (from, to) \<Rightarrow>
        (let x = xs ! nat from;
             others = take (nat from) xs @ drop (Suc (nat from)) xs
         in take (nat to) others @ x # drop (nat to) others))"

definition apply_moves :: "'a list \<Rightarrow> (int \<times> int) list \<Rightarrow> 'a list" where
  "apply_moves xs ms = foldl remove_then_reinsert xs ms"

text \<open>The update \<^verbatim>\<open>recalculate_indexes\<close> applies to one slot.\<close>

definition bump :: "int \<Rightarrow> int \<Rightarrow> int" where
  "bump original_index v = (if v < original_index then v + 1 else v)"

text \<open>
  The invariant of the second loop of \<^verbatim>\<open>sort_playlists\<close> when it reaches slot \<open>i\<close>:
  \<open>w\<close> is the array \<^verbatim>\<open>reorder\<close>, \<open>a\<close> the container as the moves made so far
  have left it (its entries named by their original positions), \<open>t\<close> the target
  permutation. The slots before \<open>i\<close> hold their final entries, and every later
  \<open>w ! j\<close> is the place, not before \<open>i\<close>, where the entry due at \<open>j\<close> now stands.
\<close>

definition placed :: "nat \<Rightarrow> int list \<Rightarrow> int list \<Rightarrow> int list \<Rightarrow> bool" where
  "placed i w a t \<longleftrightarrow>
     length w = length t \<and> length a = length t \<and>
     (\<forall>j<i. a ! j = t ! j) \<and>
     (\<forall>j. i \<le> j \<and> j < length t \<longrightarrow>
        int i \<le> w ! j \<and> w ! j < int (length t) \<and> a ! nat (w ! j) = t ! j)"

text \<open>
  The positions, counted from \<open>i\<close>, of the entries of a container that are not
  placeholders.
\<close>

fun kept :: "int \<Rightarrow> entry list \<Rightarrow> int list" where
  "kept i [] = []"
| "kept i (Placeholder # pc) = kept (i + 1) pc"
| "kept i (e # pc) = i # kept (i + 1) pc"

text \<open>
  Every folder of the container has, between its start and its end, an entry that makes
  a node on the folder's own level (a loaded playlist or a folder). \<open>empty_level\<close> says
  that the current level has no node yet.
\<close>

fun folders_filled :: "bool \<Rightarrow> entry list \<Rightarrow> bool" where
  "folders_filled empty_level [] = True"
| "folders_filled empty_level (StartFolder nm # pc) = folders_filled True pc"
| "folders_filled empty_level (EndFolder # pc) = (\<not> empty_level \<and> folders_filled False pc)"
| "folders_filled empty_level (Playlist is_loaded nm # pc) =
     folders_filled (empty_level \<and> \<not> is_loaded) pc"
| "folders_filled empty_level (Placeholder # pc) = folders_filled empty_level pc"

text \<open>The positions stored so far for the open folders of a builder state, and all the
  nodes of a tree.\<close>

fun held :: "(playlist_item \<times> node list) list \<Rightarrow> int list" where
  "held [] = []"
| "held ((p, before) # outer) = index p # emitted before @ held outer"

fun nodes_of :: "node list \<Rightarrow> node list" where
  "nodes_of [] = []"
| "nodes_of (Node it ch # nxt) = Node it ch # nodes_of ch @ nodes_of nxt"

section \<open>The order of names\<close>

lemma strcmp_range: "strcmp a b = -1 \<or> strcmp a b = 0 \<or> strcmp a b = 1"
  by (induction a b rule: strcmp.induct) auto

lemma strcmp_eq_0: "strcmp a b = 0 \<longleftrightarrow> a = b"
  by (induction a b rule: strcmp.induct) auto

lemma strcmp_swap: "strcmp b a = - strcmp a b"
  by (induction a b rule: strcmp.induct) (auto simp: of_char_eq_iff)

lemma strcmp_trans: "strcmp a b \<le> 0 \<Longrightarrow> strcmp b c \<le> 0 \<Longrightarrow> strcmp a c \<le> 0"
proof (induction a b arbitrary: c rule: strcmp.induct)
  case 1
  then show ?case by simp
next
  case (2 b bs)
  then show ?case by (cases c) auto
next
  case (3 a as)
  then show ?case by simp
next
  case (4 a as b bs)
  then show ?case
    by (cases c) (auto split: if_splits)
qed

definition name_le :: "node \<Rightarrow> node \<Rightarrow> bool" where
  "name_le a b \<longleftrightarrow> strcmp (name (item a)) (name (item b)) \<le> 0"

lemma name_le_refl: "name_le a a"
  using strcmp_eq_0 [of "name (item a)" "name (item a)"] by (simp add: name_le_def)

lemma name_le_trans: "name_le a b \<Longrightarrow> name_le b c \<Longrightarrow> name_le a c"
  unfolding name_le_def by (rule strcmp_trans)

lemma name_le_total: "\<not> strcmp (name (item a)) (name (item b)) < 0 \<Longrightarrow> name_le b a"
  unfolding name_le_def using strcmp_swap [of "name (item b)" "name (item a)"] by simp

lemma name_le_strict: "strcmp (name (item a)) (name (item b)) < 0 \<Longrightarrow> name_le a b"
  unfolding name_le_def by simp

lemma set_merge: "set (merge xs ys) = set xs \<union> set ys"
  by (induction xs ys rule: merge.induct) auto

lemma mset_merge: "mset (merge xs ys) = mset xs + mset ys"
  by (induction xs ys rule: merge.induct) auto

lemma sorted_merge:
  "sorted_wrt name_le xs \<Longrightarrow> sorted_wrt name_le ys \<Longrightarrow> sorted_wrt name_le (merge xs ys)"
proof (induction xs ys rule: merge.induct)
  case (3 one next_one two next_two)
  show ?case
  proof (cases "strcmp (name (item one)) (name (item two)) < 0")
    case True
    with 3 have "\<forall>z \<in> set (two # next_two). name_le one z"
      by (auto intro: name_le_strict name_le_trans)
    with True 3 show ?thesis by (auto simp: set_merge)
  next
    case False
    with 3 have "\<forall>z \<in> set (one # next_one). name_le two z"
      by (auto intro: name_le_total name_le_trans)
    with False 3 show ?thesis by (auto simp: set_merge)
  qed
qed simp_all

lemma merge_sort_cases:
  obtains (short) "head = [] \<or> tl head = []" "merge_sort head = head"
  | (cut) l r where "l @ r = head" "length l < length head" "length r < length head"
      "merge_sort head = merge (merge_sort l) (merge_sort r)"
proof (cases "head = [] \<or> tl head = []")
  case True
  then show ?thesis using short by (simp add: merge_sort.simps [of head])
next
  case False
  then obtain h nxt where head: "head = h # nxt" "nxt \<noteq> []" by (cases head) auto
  with split_loop_defined [of nxt nxt "[]" h]
  obtain l r where lr: "split_loop [] head (tl head) = Some (l, r)" "l @ r = head" "l \<noteq> []" "r \<noteq> []"
    by auto
  with False have "merge_sort head = merge (merge_sort l) (merge_sort r)"
    by (simp add: merge_sort.simps [of head])
  moreover from lr(1) head have "length l < length head" "length r < length head"
    using split_loop_cut(4,5) [of nxt h l r] by auto
  ultimately show ?thesis using cut lr(2) by blast
qed

lemma mset_merge_sort: "mset (merge_sort head) = mset head"
proof (induction head rule: length_induct)
  case (1 head)
  show ?case
  proof (cases head rule: merge_sort_cases)
    case short
    then show ?thesis by simp
  next
    case (cut l r)
    with 1 show ?thesis
      by (metis mset_append mset_merge)
  qed
qed

lemma set_merge_sort: "set (merge_sort head) = set head"
  by (metis mset_merge_sort set_mset_mset)

lemma sorted_merge_sort: "sorted_wrt name_le (merge_sort head)"
proof (induction head rule: length_induct)
  case (1 head)
  show ?case
  proof (cases head rule: merge_sort_cases)
    case short
    then show ?thesis by (cases head) auto
  next
    case (cut l r)
    with 1 show ?thesis
      by (simp add: sorted_merge)
  qed
qed



section \<open>The level sorter\<close>

lemma levels_sorted_Nil: "levels_sorted []"
  by (subst levels_sorted.simps) simp

lemma successively_merge_sort:
  "successively (\<lambda>a b. strcmp (name (item a)) (name (item b)) \<le> 0) (merge_sort head)"
proof -
  have "sorted_wrt (\<lambda>a b. strcmp (name (item a)) (name (item b)) \<le> 0) (merge_sort head)"
    using sorted_merge_sort [of head] unfolding name_le_def [abs_def] .
  then show ?thesis by (rule successively_if_sorted_wrt)
qed

lemma filter_merge:
  "sorted_wrt name_le xs \<Longrightarrow> sorted_wrt name_le ys \<Longrightarrow>
   filter (\<lambda>n. name (item n) = k) (merge xs ys) =
   filter (\<lambda>n. name (item n) = k) ys @ filter (\<lambda>n. name (item n) = k) xs"
proof (induction xs ys rule: merge.induct)
  case (3 one next_one two next_two)
  let ?P = "\<lambda>n. name (item n) = k"
  show ?case
  proof (cases "strcmp (name (item one)) (name (item two)) < 0")
    case True
    from 3 have "sorted_wrt name_le next_one" by simp
    with "3.IH"(1) [OF True] "3.prems"(2)
    have IH: "filter ?P (merge next_one (two # next_two)) =
        filter ?P (two # next_two) @ filter ?P next_one" by blast
    have none: "filter ?P (two # next_two) = []" if "name (item one) = k"
    proof -
      have "name (item z) \<noteq> k" if "z \<in> set (two # next_two)" for z
      proof
        assume "name (item z) = k"
        with \<open>name (item one) = k\<close> have "strcmp (name (item z)) (name (item one)) = 0"
          by (simp add: strcmp_eq_0)
        then have "name_le z one" by (simp add: name_le_def)
        moreover from that "3.prems"(2) have "name_le two z"
          by (auto simp: name_le_refl)
        ultimately have "name_le two one" by (blast intro: name_le_trans)
        with True strcmp_swap [of "name (item one)" "name (item two)"] show False
          by (simp add: name_le_def)
      qed
      then show ?thesis by (simp only: filter_empty_conv) blast
    qed
    have "filter ?P (merge (one # next_one) (two # next_two)) =
        filter ?P (one # merge next_one (two # next_two))"
      using True by simp
    also have "\<dots> = filter ?P (two # next_two) @ filter ?P (one # next_one)"
    proof (cases "name (item one) = k")
      case True
      with none IH show ?thesis by simp
    next
      case False
      with IH show ?thesis by simp
    qed
    finally show ?thesis .
  next
    case False
    from 3 have "sorted_wrt name_le next_two" by simp
    with "3.IH"(2) [OF False] "3.prems"(1)
    have IH: "filter ?P (merge (one # next_one) next_two) =
        filter ?P next_two @ filter ?P (one # next_one)" by blast
    have "filter ?P (merge (one # next_one) (two # next_two)) =
        filter ?P (two # merge (one # next_one) next_two)"
      using False by simp
    also have "\<dots> = filter ?P (two # next_two) @ filter ?P (one # next_one)"
      using IH by simp
    finally show ?thesis .
  qed
qed simp_all

lemma filter_merge_sort:
  "filter (\<lambda>n. name (item n) = k) (merge_sort head) = rev (filter (\<lambda>n. name (item n) = k) head)"
proof (induction head rule: length_induct)
  case (1 head)
  show ?case
  proof (cases head rule: merge_sort_cases)
    case short
    then show ?thesis by (cases head) auto
  next
    case (cut l r)
    with 1 have "filter (\<lambda>n. name (item n) = k) (merge_sort head) =
        rev (filter (\<lambda>n. name (item n) = k) r) @ rev (filter (\<lambda>n. name (item n) = k) l)"
      by (simp add: filter_merge sorted_merge_sort)
    also have "\<dots> = rev (filter (\<lambda>n. name (item n) = k) (l @ r))" by simp
    finally show ?thesis using cut(1) by simp
  qed
qed


lemma merge_sort_two:
  "merge_sort [a, b] = merge [a] [b]"
  by (simp add: merge_sort.simps [of "[a, b]"] merge_sort.simps [of "[a]"]
        merge_sort.simps [of "[b]"])

lemma merge_sort_one: "merge_sort [a] = [a]"
  by (simp add: merge_sort.simps [of "[a]"])

lemma levels_sorted_sort_list: "levels_sorted (sort_list head)"
proof (induction head rule: sort_list.induct)
  case (1 head)
  let ?f = "\<lambda>n. if children n \<noteq> [] then Node (item n) (sort_list (children n)) else n"
  have "levels_sorted (children n')" if "n' \<in> set (map ?f head)" for n'
  proof -
    from that obtain n where "n \<in> set head" "n' = ?f n" by auto
    with 1 show ?thesis by (cases "children n = []") (auto simp: levels_sorted_Nil)
  qed
  then have "\<forall>n \<in> set (merge_sort (map ?f head)). levels_sorted (children n)"
    unfolding set_merge_sort by blast
  then have "levels_sorted (merge_sort (map ?f head))"
    by (subst levels_sorted.simps) (simp add: successively_merge_sort)
  then show ?case
    by (subst sort_list.simps)
qed

lemma bags_image: "bags head = image_mset (\<lambda>n. Bag (item n) (bags (children n))) (mset head)"
  by (subst bags.simps) simp

lemma bags_merge_sort: "bags (merge_sort head) = bags head"
  using bags_image [of "merge_sort head"] bags_image [of head]
  by (simp only: mset_merge_sort)

lemma bags_sort_list: "bags (sort_list head) = bags head"
proof (induction head rule: sort_list.induct)
  case (1 head)
  let ?f = "\<lambda>n. if children n \<noteq> [] then Node (item n) (sort_list (children n)) else n"
  have one: "Bag (item (?f n)) (bags (children (?f n))) = Bag (item n) (bags (children n))"
    if "n \<in> set head" for n
    using "1.IH" [OF that] by (cases "children n = []") simp_all
  have "bags (sort_list head) = bags (map ?f head)"
    by (subst sort_list.simps) (rule bags_merge_sort)
  also have "\<dots> = image_mset (\<lambda>n. Bag (item (?f n)) (bags (children (?f n)))) (mset head)"
    using bags_image [of "map ?f head"]
    by (simp only: mset_map image_mset.compositionality comp_def)
  also have "\<dots> = image_mset (\<lambda>n. Bag (item n) (bags (children n))) (mset head)"
    by (rule image_mset_cong) (simp add: one)
  also have "\<dots> = bags head" using bags_image [of head] by simp
  finally show ?case .
qed

text \<open>
  Claim C6. After \<^verbatim>\<open>sort_list\<close> returns, the chain it returns and the chain of children
  of every node at every depth have their names in non-decreasing order under
  \<^verbatim>\<open>strcmp\<close>; and the tree returned is the tree given, reordered: at every level it
  holds the same nodes, with the same items, under the same parents.
\<close>

theorem sort_list_levels_sorted:
  "levels_sorted (sort_list head) \<and> bags (sort_list head) = bags head"
proof
  show "levels_sorted (sort_list head)" by (rule levels_sorted_sort_list)
next
  show "bags (sort_list head) = bags head" by (rule bags_sort_list)
qed

theorem sort_list_levels_sorted_witness:
  "sort_list [folder3, banana2, apple0, Node \<lparr>index = 7, end_index = -1, name = ''cherry''\<rparr> [],
      apple1] =
     [Node \<lparr>index = 3, end_index = 6, name = ''Zoo''\<rparr>
        [Node \<lparr>index = 5, end_index = -1, name = ''ant''\<rparr> [],
         Node \<lparr>index = 4, end_index = -1, name = ''yak''\<rparr> []],
      apple1, apple0, banana2, Node \<lparr>index = 7, end_index = -1, name = ''cherry''\<rparr> []] \<and>
   levels_sorted (sort_list [folder3, banana2, apple0,
      Node \<lparr>index = 7, end_index = -1, name = ''cherry''\<rparr> [], apple1]) \<and>
   bags (sort_list [folder3, banana2, apple0,
      Node \<lparr>index = 7, end_index = -1, name = ''cherry''\<rparr> [], apple1]) =
     bags [folder3, banana2, apple0, Node \<lparr>index = 7, end_index = -1, name = ''cherry''\<rparr> [],
      apple1]"
proof -
  let ?head = "[folder3, banana2, apple0,
      Node \<lparr>index = 7, end_index = -1, name = ''cherry''\<rparr> [], apple1]"
  have "sort_list ?head =
     [Node \<lparr>index = 3, end_index = 6, name = ''Zoo''\<rparr>
        [Node \<lparr>index = 5, end_index = -1, name = ''ant''\<rparr> [],
         Node \<lparr>index = 4, end_index = -1, name = ''yak''\<rparr> []],
      apple1, apple0, banana2, Node \<lparr>index = 7, end_index = -1, name = ''cherry''\<rparr> []]"
    by code_simp
  moreover note sort_list_levels_sorted [of ?head]
  ultimately show ?thesis by (intro conjI) (simp_all only: simp_thms)
qed

lemma filter_strcmp_eq:
  "filter (\<lambda>n. strcmp (name (item n)) k = 0) xs = filter (\<lambda>n. name (item n) = k) xs"
  by (simp add: strcmp_eq_0)

text \<open>
  Claim C2 says that \<^verbatim>\<open>merge\<close> takes the node of the left chain first when two names
  compare equal, and that nodes with equal names keep their relative order. The test in
  \<^verbatim>\<open>merge\<close> is \<^verbatim>\<open>strcmp (...) < 0\<close>, so on equal names the node of the right chain
  goes first: two playlists called \<open>apple\<close> come out swapped.
\<close>

theorem merge_sort_equal_names_swapped:
  "merge [apple0] [apple1] = [apple1, apple0] \<and> merge_sort [apple0, apple1] = [apple1, apple0]"
  by (simp add: merge_sort_two apple0_def apple1_def)

text \<open>
  Claim C2, amended. On equal names \<^verbatim>\<open>merge\<close> takes the node of the right chain first,
  and in the chain \<^verbatim>\<open>merge_sort\<close> returns the nodes of any one name stand in the reverse
  of their order in the input chain.
\<close>

theorem merge_sort_reverses_equal_names:
  "(strcmp (name (item one)) (name (item two)) = 0 \<longrightarrow>
      merge (one # next_one) (two # next_two) = two # merge (one # next_one) next_two) \<and>
   filter (\<lambda>n. strcmp (name (item n)) k = 0) (merge_sort head) =
     rev (filter (\<lambda>n. strcmp (name (item n)) k = 0) head)"
proof
  show "strcmp (name (item one)) (name (item two)) = 0 \<longrightarrow>
      merge (one # next_one) (two # next_two) = two # merge (one # next_one) next_two"
    by simp
next
  have "filter (\<lambda>n. name (item n) = k) (merge_sort head) =
      rev (filter (\<lambda>n. name (item n) = k) head)"
    by (rule filter_merge_sort)
  then show "filter (\<lambda>n. strcmp (name (item n)) k = 0) (merge_sort head) =
      rev (filter (\<lambda>n. strcmp (name (item n)) k = 0) head)"
    by (simp only: filter_strcmp_eq)
qed

theorem merge_sort_reverses_equal_names_witness:
  "strcmp (name (item apple0)) (name (item apple1)) = 0 \<and>
   merge [apple0, banana2] [apple1] = apple1 # merge [apple0, banana2] [] \<and>
   filter (\<lambda>n. strcmp (name (item n)) ''apple'' = 0) (merge_sort [apple0, banana2, apple1]) =
     [apple1, apple0]"
  using merge_sort_reverses_equal_names [of apple0 apple1 "[banana2]" "[]" "''apple''"
      "[apple0, banana2, apple1]"]
  by (simp add: apple0_def apple1_def banana2_def)

section \<open>The tree builder\<close>

lemma build_loop_unmatched:
  "unmatched_end (length (parents b)) pc \<Longrightarrow> build_loop pc i b = Inl NullPointerDereference"
proof (induction pc i b rule: build_loop.induct)
  case (4 pc i b)
  then show ?case by (cases "parents b") auto
qed auto

lemma build_loop_matched:
  "\<not> unmatched_end (length (parents b)) pc \<Longrightarrow>
   \<exists>b'. build_loop pc i b = Inr b' \<and> not_loaded b' = not_loaded b + unloaded pc"
proof (induction pc i b rule: build_loop.induct)
  case (4 pc i b)
  then show ?case by (cases "parents b") auto
qed auto

lemma unloaded_nonneg: "0 \<le> unloaded pc"
  by (induction pc rule: unloaded.induct) auto

lemma sort_playlists_unmatched:
  "unmatched_end 0 pc \<Longrightarrow> sort_playlists pc =
    \<lparr>moves = [], could_not_be_loaded = None, ending = Crashed NullPointerDereference\<rparr>"
  using build_loop_unmatched [of "\<lparr>chain = [], parents = [], not_loaded = 0\<rparr>" pc 0]
  by (simp add: sort_playlists_def build_def)

text \<open>
  Claim C5 expects a structural error, returned to the caller, for a folder end met while
  no folder is open. The case \<^verbatim>\<open>SP_PLAYLIST_TYPE_END_FOLDER\<close> has no test of
  \<^verbatim>\<open>parent\<close>: on the container that holds a single folder end it executes
  \<^verbatim>\<open>previous = parent; previous->item->end_index = i\<close> with \<^verbatim>\<open>parent == NULL\<close>. No
  move has been made at that point, and nothing is returned.
\<close>

theorem sort_playlists_lone_end_folder:
  "sort_playlists [EndFolder] =
    \<lparr>moves = [], could_not_be_loaded = None, ending = Crashed NullPointerDereference\<rparr>"
  using sort_playlists_unmatched [of "[EndFolder]"] by simp

text \<open>
  Claim C8 says that every container with a playlist that is not loaded makes
  \<^verbatim>\<open>sort_playlists\<close> abort with an error reported to its caller. The test
  \<^verbatim>\<open>if (not_loaded > 0)\<close> stands behind the first loop: on an unloaded playlist followed
  by a folder end that closes nothing, the loop dereferences \<^verbatim>\<open>parent == NULL\<close> before
  the test is reached and no count is printed. And where the test is reached, the value
  returned is 1, the value a run on a loaded playlist returns as well.
\<close>

theorem sort_playlists_not_loaded_unmatched_end:
  "0 < unloaded [Playlist False ''a'', EndFolder] \<and>
   sort_playlists [Playlist False ''a'', EndFolder] =
     \<lparr>moves = [], could_not_be_loaded = None, ending = Crashed NullPointerDereference\<rparr> \<and>
   ending (sort_playlists [Playlist False ''a'']) = Returned 1 \<and>
   ending (sort_playlists [Playlist True ''a'']) = Returned 1"
  by code_simp

text \<open>
  Claim C8, amended. When every folder end of the container closes an open folder and at
  least one playlist is not loaded, \<^verbatim>\<open>sort_playlists\<close> makes no call of
  \<^verbatim>\<open>sp_playlistcontainer_move_playlist\<close>, prints the number of playlists that are not
  loaded in its \<^verbatim>\<open>ERROR\<close> line and returns the value 1.
\<close>

theorem sort_playlists_not_loaded:
  assumes "\<not> unmatched_end 0 pc" and "0 < unloaded pc"
  shows "sort_playlists pc =
    \<lparr>moves = [], could_not_be_loaded = Some (unloaded pc), ending = Returned 1\<rparr>"
proof -
  from assms(1) build_loop_matched [of "\<lparr>chain = [], parents = [], not_loaded = 0\<rparr>" pc 0]
  obtain b where "build pc = Inr b" "not_loaded b = unloaded pc"
    by (auto simp: build_def)
  with assms(2) show ?thesis by (simp add: sort_playlists_def)
qed

theorem sort_playlists_not_loaded_witness:
  "\<not> unmatched_end 0 [Playlist False ''b'', StartFolder ''F'', Placeholder,
      Playlist True ''a'', EndFolder, Playlist False ''c''] \<and>
   0 < unloaded [Playlist False ''b'', StartFolder ''F'', Placeholder,
      Playlist True ''a'', EndFolder, Playlist False ''c''] \<and>
   sort_playlists [Playlist False ''b'', StartFolder ''F'', Placeholder,
      Playlist True ''a'', EndFolder, Playlist False ''c''] =
    \<lparr>moves = [], could_not_be_loaded = Some 2, ending = Returned 1\<rparr>"
  using sort_playlists_not_loaded [of "[Playlist False ''b'', StartFolder ''F'', Placeholder,
      Playlist True ''a'', EndFolder, Playlist False ''c'']"]
  by simp

section \<open>The move loop\<close>

lemma working_at_fault:
  "working_at n reorder i = Inl f \<Longrightarrow> i \<le> j \<Longrightarrow> working_at n reorder j = Inl f"
  by (induction j) (auto simp: le_Suc_eq)

lemma moves_due_fault:
  "working_at n reorder i = Inl f \<Longrightarrow> i \<le> j \<Longrightarrow> moves_due n reorder j = []"
  using working_at_fault [of n reorder i f j] by (simp add: moves_due_def entry_at_def)

lemma concat_moves_due_fault:
  "working_at n reorder i = Inl f \<Longrightarrow> concat (map (moves_due n reorder) [i..<n]) = []"
  by (auto simp: moves_due_fault)

lemma move_loop_from:
  "working_at n reorder i = Inr w \<Longrightarrow>
   fst (move_loop i n w) = concat (map (moves_due n reorder) [i..<n])"
proof (induction "n - i" arbitrary: i w)
  case 0
  then show ?case by (simp add: move_loop.simps [of i n w])
next
  case (Suc d)
  then have i: "i < n" and d: "d = n - Suc i" by auto
  have up: "[i..<n] = i # [Suc i..<n]" using i by (simp add: upt_conv_Cons)
  show ?case
  proof (cases "fetch w i")
    case (Inl f)
    with Suc.prems have "working_at n reorder (Suc i) = Inl f"
      by (simp add: slot_round_def)
    then have "concat (map (moves_due n reorder) [Suc i..<n]) = []"
      by (rule concat_moves_due_fault)
    moreover have "moves_due n reorder i = []"
      using Inl Suc.prems by (simp add: moves_due_def entry_at_def)
    ultimately show ?thesis using Inl i up
      by (simp add: move_loop.simps [of i n w])
  next
    case (Inr v)
    show ?thesis
    proof (cases "int i = v")
      case True
      with Inr Suc.prems have "working_at n reorder (Suc i) = Inr w"
        by (simp add: slot_round_def)
      from Suc.hyps(1) [OF d this]
      have "fst (move_loop (Suc i) n w) = concat (map (moves_due n reorder) [Suc i..<n])" .
      moreover have "moves_due n reorder i = []"
        using Inr True Suc.prems by (simp add: moves_due_def entry_at_def)
      ultimately show ?thesis using Inr True i up
        by (simp add: move_loop.simps [of i n w])
    next
      case False
      then have due: "moves_due n reorder i = [(v, int i)]"
        using Inr Suc.prems by (auto simp: moves_due_def entry_at_def)
      show ?thesis
      proof (cases "recalculate_indexes w n i")
        case (Inl f)
        with Inr False Suc.prems have "working_at n reorder (Suc i) = Inl f"
          by (simp add: slot_round_def)
        then have "concat (map (moves_due n reorder) [Suc i..<n]) = []"
          by (rule concat_moves_due_fault)
        with Inl Inr False due i up show ?thesis
          by (simp add: move_loop.simps [of i n w])
      next
        case (Inr w')
        with \<open>fetch w i = Inr v\<close> False Suc.prems have "working_at n reorder (Suc i) = Inr w'"
          by (simp add: slot_round_def)
        from Suc.hyps(1) [OF d this]
        have "fst (move_loop (Suc i) n w') = concat (map (moves_due n reorder) [Suc i..<n])" .
        with Inr \<open>fetch w i = Inr v\<close> False due i up show ?thesis
          by (cases "move_loop (Suc i) n w'") (simp add: move_loop.simps [of i n w])
      qed
    qed
  qed
qed


lemma length_moves_due:
  "length (concat (map (moves_due n reorder) is)) = length (filter (misplaced n reorder) is)"
  by (induction "is") (auto simp: moves_due_def misplaced_def split: option.splits)

text \<open>
  Claim C9. The calls of \<^verbatim>\<open>sp_playlistcontainer_move_playlist\<close> made by the loop are, slot
  by slot, the move \<open>(reorder[i], i)\<close> where the entry read at slot \<open>i\<close> differs from
  \<open>i\<close> and nothing where it equals \<open>i\<close>; their number is the number of slots whose
  entry differs from the slot's index when the slot is reached.
\<close>

theorem move_loop_one_move_per_misplaced_slot:
  "fst (move_loop 0 num_playlists reorder) =
     concat (map (moves_due num_playlists reorder) [0..<num_playlists]) \<and>
   length (fst (move_loop 0 num_playlists reorder)) =
     length (filter (misplaced num_playlists reorder) [0..<num_playlists])"
proof -
  have "fst (move_loop 0 num_playlists reorder) =
      concat (map (moves_due num_playlists reorder) [0..<num_playlists])"
    by (rule move_loop_from) simp
  then show ?thesis by (simp add: length_moves_due)
qed

theorem move_loop_one_move_per_misplaced_slot_witness:
  "fst (move_loop 0 5 [Some 4, Some 1, Some 0, Some 2, Some 3]) = [(4, 0), (2, 1)] \<and>
   filter (misplaced 5 [Some 4, Some 1, Some 0, Some 2, Some 3]) [0..<5] = [0, 1]"
proof -
  have "concat (map (moves_due 5 [Some 4, Some 1, Some 0, Some 2, Some 3]) [0..<5]) =
      [(4, 0), (2, 1)]"
    by code_simp
  moreover have "filter (misplaced 5 [Some 4, Some 1, Some 0, Some 2, Some 3]) [0..<5] = [0, 1]"
    by code_simp
  ultimately show ?thesis
    using move_loop_one_move_per_misplaced_slot [of 5 "[Some 4, Some 1, Some 0, Some 2, Some 3]"]
    by simp
qed

section \<open>The flattener\<close>

lemma length_writes [simp]: "length (writes reorder idx vs) = length reorder"
  by (induction vs arbitrary: reorder idx) auto

lemma writes_append:
  "writes reorder idx (vs @ ws) = writes (writes reorder idx vs) (idx + length vs) ws"
  by (induction vs arbitrary: reorder idx) auto

lemma store_writes:
  "store (reorder, idx) v =
     (if idx < length reorder then Inr (writes reorder idx [v], idx + 1)
      else Inl OutOfBoundsAccess)"
  by (simp add: store_def)

lemma flatten_list_rec_Node:
  "flatten_list_rec (Node it ch # nxt) st =
     (case store st (index it) of
        Inl f \<Rightarrow> Inl f
      | Inr st1 \<Rightarrow>
         (case (if ch \<noteq> []
                then (case flatten_list_rec ch st1 of
                        Inl f \<Rightarrow> Inl f
                      | Inr st2 \<Rightarrow> store st2 (end_index it))
                else Inr st1) of
            Inl f \<Rightarrow> Inl f
          | Inr st3 \<Rightarrow> if nxt \<noteq> [] then flatten_list_rec nxt st3 else Inr st3))"
  by (simp cong: sum.case_cong if_cong)

declare flatten_list_rec.simps(2) [simp del]

lemma flatten_list_rec_emitted:
  "head \<noteq> [] \<Longrightarrow>
   flatten_list_rec head (reorder, idx) =
     (if idx + length (emitted head) \<le> length reorder
      then Inr (writes reorder idx (emitted head), idx + length (emitted head))
      else Inl OutOfBoundsAccess)"
proof (induction head arbitrary: reorder idx rule: emitted.induct)
  case 1
  then show ?case by simp
next
  case (2 it ch nxt)
  show ?case
  proof (cases "idx < length reorder")
    case False
    then show ?thesis by (simp add: flatten_list_rec_Node store_writes)
  next
    case True
    note fits = this
    define st1 where "st1 = (writes reorder idx [index it], idx + 1)"
    have s1: "store (reorder, idx) (index it) = Inr st1"
      using fits by (simp add: flatten_list_rec_Node store_writes st1_def)
    show ?thesis
    proof (cases "ch = []")
      case True
      note leaf = this
      show ?thesis
      proof (cases "nxt = []")
        case True
        with leaf fits show ?thesis by (simp add: flatten_list_rec_Node store_writes)
      next
        case False
        with "2.IH"(2) [of "writes reorder idx [index it]" "idx + 1"] leaf fits
        show ?thesis by (auto simp: flatten_list_rec_Node store_writes)
      qed
    next
      case False
      note folder = this
      from "2.IH"(1) [OF folder folder, of "writes reorder idx [index it]" "idx + 1"]
      have ch: "flatten_list_rec ch (writes reorder idx [index it], idx + 1) =
        (if idx + 1 + length (emitted ch) \<le> length reorder
         then Inr (writes (writes reorder idx [index it]) (idx + 1) (emitted ch),
                   idx + 1 + length (emitted ch))
         else Inl OutOfBoundsAccess)" by simp
      show ?thesis
      proof (cases "idx + 1 + length (emitted ch) < length reorder")
        case False
        with ch folder fits show ?thesis by (auto simp: flatten_list_rec_Node store_writes)
      next
        case True
        note room = this
        let ?r3 = "writes reorder idx (index it # emitted ch @ [end_index it])"
        let ?k3 = "idx + 2 + length (emitted ch)"
        have mid: "(case flatten_list_rec ch (writes reorder idx [index it], idx + 1) of
            Inl f \<Rightarrow> Inl f | Inr st2 \<Rightarrow> store st2 (end_index it)) = Inr (?r3, ?k3)"
          using ch room by (simp add: flatten_list_rec_Node store_writes writes_append)
        show ?thesis
        proof (cases "nxt = []")
          case True
          with mid folder fits room show ?thesis by (simp add: flatten_list_rec_Node store_writes)
        next
          case False
          from "2.IH"(2) [OF False, of ?r3 ?k3]
          have "flatten_list_rec nxt (?r3, ?k3) =
            (if ?k3 + length (emitted nxt) \<le> length reorder
             then Inr (writes ?r3 ?k3 (emitted nxt), ?k3 + length (emitted nxt))
             else Inl OutOfBoundsAccess)" by simp
          with mid folder fits room False show ?thesis
            by (auto simp: flatten_list_rec_Node store_writes writes_append
                  writes_append [of _ _ "index it # emitted ch @ [end_index it]", simplified])
        qed
      qed
    qed
  qed
qed

lemma writes_replicate:
  "idx + length vs \<le> n \<Longrightarrow> length pre = idx \<Longrightarrow>
   writes (pre @ replicate (n - idx) None) idx vs =
     pre @ map Some vs @ replicate (n - idx - length vs) None"
proof (induction vs arbitrary: pre idx)
  case Nil
  then show ?case by simp
next
  case (Cons v vs)
  then obtain m where m: "n - idx = Suc m" by (cases "n - idx") auto
  then have m': "n - (idx + 1) = m" by simp
  have "(pre @ replicate (n - idx) None)[idx := Some v] = (pre @ [Some v]) @ replicate (n - (idx + 1)) None"
    using Cons.prems m by (simp add: list_update_append)
  with Cons.IH [of "idx + 1" "pre @ [Some v]"] Cons.prems m show ?case
    by simp
qed

lemma flatten_list_emitted:
  "head \<noteq> [] \<Longrightarrow>
   flatten_list head (replicate n None) =
     (if length (emitted head) \<le> n
      then Inr (map Some (emitted head) @ replicate (n - length (emitted head)) None)
      else Inl OutOfBoundsAccess)"
  using writes_replicate [of 0 "emitted head" n "[]"]
  by (simp add: flatten_list_def flatten_list_rec_emitted)

section \<open>Containers with balanced folder markers\<close>

lemma emitted_append: "emitted (xs @ ys) = emitted xs @ emitted ys"
  by (induction xs rule: emitted.induct) auto

lemma balanced_from_matched: "balanced_from d pc \<Longrightarrow> \<not> unmatched_end d pc"
  by (induction d pc rule: balanced_from.induct) auto

lemma build_loop_balanced:
  "balanced_from (length (parents b)) pc \<Longrightarrow> build_loop pc i b = Inr b' \<Longrightarrow> parents b' = []"
proof (induction pc i b rule: build_loop.induct)
  case (4 pc i b)
  then show ?case by (cases "parents b") auto
qed (auto split: if_splits)

lemma build_loop_room:
  "build_loop pc i b = Inr b' \<Longrightarrow>
   length (emitted (chain b')) + pending (parents b') + length (filter (\<lambda>e. e = Placeholder) pc)
     \<le> length (emitted (chain b)) + pending (parents b) + length pc"
proof (induction pc i b rule: build_loop.induct)
  case (1 i b)
  then show ?case by simp
next
  case (2 is_loaded nm pc i b)
  show ?case
  proof (cases is_loaded)
    case True
    with 2 show ?thesis by (fastforce simp: emitted_append)
  next
    case False
    with 2 show ?thesis by fastforce
  qed
next
  case (3 nm pc i b)
  then show ?case by fastforce
next
  case (4 pc i b)
  from "4.prems" obtain p before outer where par: "parents b = (p, before) # outer"
    by (cases "parents b") auto
  let ?b = "b\<lparr>chain := before @ [Node (p\<lparr>end_index := i\<rparr>) (chain b)], parents := outer\<rparr>"
  from "4.prems" par have "build_loop pc (i + 1) ?b = Inr b'" by simp
  from "4.IH" [OF par refl this]
  have "length (emitted (chain b')) + pending (parents b') +
      length (filter (\<lambda>e. e = Placeholder) pc)
      \<le> length (emitted (chain ?b)) + pending (parents ?b) + length pc" .
  moreover have "length (emitted (chain ?b)) \<le> length (emitted before) + 2 + length (emitted (chain b))"
    by (simp add: emitted_append)
  ultimately show ?case using par by simp
next
  case (5 pc i b)
  then show ?case by fastforce
qed

lemma build_loop_some_node:
  "build_loop pc i b = Inr b' \<Longrightarrow>
   chain b \<noteq> [] \<or> parents b \<noteq> [] \<or> (\<exists>e \<in> set pc. makes_node e) \<Longrightarrow>
   chain b' \<noteq> [] \<or> parents b' \<noteq> []"
proof (induction pc i b rule: build_loop.induct)
  case (4 pc i b)
  then show ?case by (cases "parents b") auto
qed (auto split: if_splits)

lemma mset_emitted: "mset (emitted xs) = (\<Sum>n\<in>#mset xs. mset (emitted [n]))"
proof (induction xs)
  case (Cons n xs)
  have "emitted (n # xs) = emitted [n] @ emitted xs"
    using emitted_append [of "[n]" xs] by simp
  with Cons show ?case by simp
qed simp

lemma mset_emitted_merge_sort: "mset (emitted (merge_sort xs)) = mset (emitted xs)"
  using mset_emitted [of "merge_sort xs"] mset_emitted [of xs] by (simp add: mset_merge_sort)

lemma length_sort_list: "length (sort_list head) = length head"
  using arg_cong [OF mset_merge_sort, where f = size]
  by (subst sort_list.simps) simp

lemma mset_emitted_sort_list: "mset (emitted (sort_list head)) = mset (emitted head)"
proof (induction head rule: sort_list.induct)
  case (1 head)
  let ?f = "\<lambda>n. if children n \<noteq> [] then Node (item n) (sort_list (children n)) else n"
  have one: "mset (emitted [?f n]) = mset (emitted [n])" if "n \<in> set head" for n
  proof (cases "children n = []")
    case True
    then show ?thesis by simp
  next
    case False
    with 1 [OF that] have "mset (emitted (sort_list (children n))) = mset (emitted (children n))"
      by simp
    moreover from False have "sort_list (children n) \<noteq> []"
      using length_sort_list [of "children n"] by auto
    ultimately show ?thesis using False by (cases n) auto
  qed
  have "mset (emitted (sort_list head)) = mset (emitted (map ?f head))"
    by (subst sort_list.simps) (rule mset_emitted_merge_sort)
  also have "\<dots> = (\<Sum>n\<in>#mset head. mset (emitted [?f n]))"
    by (simp add: mset_emitted [of "map ?f head"] image_mset.compositionality comp_def)
  also have "\<dots> = (\<Sum>n\<in>#mset head. mset (emitted [n]))"
    by (rule arg_cong [where f = sum_mset], rule image_mset_cong) (simp add: one)
  also have "\<dots> = mset (emitted head)" by (simp add: mset_emitted [of head])
  finally show ?case .
qed


lemma recalculate_loop_unwritten:
  "i \<le> k \<Longrightarrow> k < sz \<Longrightarrow> k < length reorder \<Longrightarrow> reorder ! k = None \<Longrightarrow>
   recalculate_loop reorder sz orig i = Inl UninitialisedRead"
proof (induction "k - i" arbitrary: i reorder)
  case 0
  then have "i = k" by simp
  with 0 show ?case
    by (subst recalculate_loop.simps) (simp add: fetch_def)
next
  case (Suc d)
  then have ik: "i < k" and d: "d = k - Suc i" by auto
  show ?case
  proof (cases "reorder ! i")
    case None
    with Suc.prems ik show ?thesis
      by (subst recalculate_loop.simps) (simp add: fetch_def)
  next
    case (Some v)
    let ?r = "if v < orig then reorder[i := Some (v + 1)] else reorder"
    have "recalculate_loop ?r sz orig (Suc i) = Inl UninitialisedRead"
      using Suc.prems ik by (intro Suc.hyps(1) [OF d]) auto
    with Some Suc.prems ik show ?thesis
      by (subst recalculate_loop.simps) (simp add: fetch_def)
  qed
qed

lemma move_loop_unwritten:
  "i \<le> k \<Longrightarrow> k < n \<Longrightarrow> k < length reorder \<Longrightarrow> reorder ! k = None \<Longrightarrow>
   snd (move_loop i n reorder) = Some UninitialisedRead"
proof (induction "k - i" arbitrary: i reorder)
  case 0
  then have "i = k" by simp
  with 0 show ?case
    by (subst move_loop.simps) (simp add: fetch_def)
next
  case (Suc d)
  then have ik: "i < k" and d: "d = k - Suc i" by auto
  show ?case
  proof (cases "reorder ! i")
    case None
    with Suc.prems ik show ?thesis
      by (subst move_loop.simps) (simp add: fetch_def)
  next
    case (Some v)
    then have f: "fetch reorder i = Inr v" using Suc.prems ik by (simp add: fetch_def)
    show ?thesis
    proof (cases "int i = v")
      case True
      have "snd (move_loop (Suc i) n reorder) = Some UninitialisedRead"
        using Suc.prems ik by (intro Suc.hyps(1) [OF d]) auto
      with f True Suc.prems ik show ?thesis
        by (subst move_loop.simps) simp
    next
      case False
      have "recalculate_indexes reorder n i = Inl UninitialisedRead"
        using f Suc.prems ik recalculate_loop_unwritten [of i k n reorder v]
        by (simp add: recalculate_indexes_def)
      with f False Suc.prems ik show ?thesis
        by (subst move_loop.simps) simp
    qed
  qed
qed

lemma sort_playlists_flattened:
  assumes "build pc = Inr b" and "not_loaded b \<le> 0" and "items_built pc \<noteq> []"
  shows "sort_playlists pc =
    (case flattened pc of
       Inl f \<Rightarrow> \<lparr>moves = [], could_not_be_loaded = None, ending = Crashed f\<rparr>
     | Inr reorder \<Rightarrow>
        (case move_loop 0 (length pc) reorder of
           (ms, Some f) \<Rightarrow> \<lparr>moves = ms, could_not_be_loaded = None, ending = Crashed f\<rparr>
         | (ms, None) \<Rightarrow> \<lparr>moves = ms, could_not_be_loaded = None, ending = Returned 1\<rparr>))"
  using assms by (simp add: sort_playlists_def flattened_def items_built_def Let_def)

lemma build_balanced:
  assumes "balanced pc"
  obtains b where "build pc = Inr b" and "parents b = []" and "not_loaded b = unloaded pc"
    and "items_built pc = chain b"
    and "length (emitted (chain b)) + length (filter (\<lambda>e. e = Placeholder) pc) \<le> length pc"
    and "(\<exists>e \<in> set pc. makes_node e) \<Longrightarrow> chain b \<noteq> []"
proof -
  let ?b0 = "\<lparr>chain = [], parents = [], not_loaded = 0\<rparr>"
  from assms have "\<not> unmatched_end (length (parents ?b0)) pc"
    by (simp add: balanced_def balanced_from_matched)
  from build_loop_matched [OF this, of 0]
  obtain b where b: "build_loop pc 0 ?b0 = Inr b" "not_loaded b = unloaded pc" by auto
  from assms b(1) have par: "parents b = []"
    using build_loop_balanced [of ?b0 pc 0 b] by (simp add: balanced_def)
  from build_loop_room [OF b(1)] par
  have room: "length (emitted (chain b)) + length (filter (\<lambda>e. e = Placeholder) pc) \<le> length pc"
    by simp
  have "chain b \<noteq> []" if "\<exists>e \<in> set pc. makes_node e"
    using build_loop_some_node [OF b(1)] that par by simp
  with b par room that show ?thesis
    by (simp add: build_def items_built_def)
qed

text \<open>
  Claim C10 says that every fully loaded container with a placeholder makes the second
  loop read slots of \<^verbatim>\<open>reorder\<close> that were never written. A container that holds
  nothing but a placeholder gives no node: \<^verbatim>\<open>items\<close> stays \<^verbatim>\<open>NULL\<close>, the branch
  \<^verbatim>\<open>if (items != NULL)\<close> is skipped, no array is allocated and no slot is read.
\<close>

theorem sort_playlists_only_placeholder:
  "items_built [Placeholder] = [] \<and>
   sort_playlists [Placeholder] =
     \<lparr>moves = [], could_not_be_loaded = None, ending = Returned 1\<rparr>"
  by (simp add: items_built_def sort_playlists_def build_def)

text \<open>
  Claim C10, amended. For every fully loaded container with balanced folder markers that
  holds a placeholder and at least one loaded playlist or folder start,
  \<^verbatim>\<open>flatten_list\<close> writes fewer than \<^verbatim>\<open>num_playlists\<close> slots of \<^verbatim>\<open>reorder\<close>, and the
  second loop of \<^verbatim>\<open>sort_playlists\<close> reads a slot that was never written.
\<close>

theorem sort_playlists_reads_unwritten_slot:
  assumes "balanced pc" and "unloaded pc = 0" and "Placeholder \<in> set pc"
    and "\<exists>e \<in> set pc. makes_node e"
  shows "\<exists>reorder. flattened pc = Inr reorder \<and>
      length (filter (\<lambda>slot. slot \<noteq> None) reorder) < length pc \<and>
      ending (sort_playlists pc) = Crashed UninitialisedRead"
proof -
  from assms(1) obtain b where b: "build pc = Inr b" "not_loaded b = unloaded pc"
    "items_built pc = chain b"
    "length (emitted (chain b)) + length (filter (\<lambda>e. e = Placeholder) pc) \<le> length pc"
    "(\<exists>e \<in> set pc. makes_node e) \<Longrightarrow> chain b \<noteq> []"
    by (rule build_balanced) blast
  let ?vs = "emitted (sort_list (chain b))"
  let ?n = "length pc"
  from assms(3) have "Placeholder \<in> set (filter (\<lambda>e. e = Placeholder) pc)"
    by simp
  then have "0 < length (filter (\<lambda>e. e = Placeholder) pc)"
    by (rule length_pos_if_in_set)
  with b(4) have less: "length (emitted (chain b)) < ?n" by linarith
  have "length ?vs = length (emitted (chain b))"
    using arg_cong [OF mset_emitted_sort_list, where f = size] by simp
  with less have vs: "length ?vs < ?n" by simp
  from b(5) assms(4) have ne: "sort_list (chain b) \<noteq> []"
    using length_sort_list [of "chain b"] by auto
  let ?r = "map Some ?vs @ replicate (?n - length ?vs) None"
  from ne vs b(3) have fl: "flattened pc = Inr ?r"
    by (simp add: flattened_def flatten_list_emitted)
  have count: "length (filter (\<lambda>slot. slot \<noteq> None) ?r) < ?n"
    using vs by simp
  have "?r ! length ?vs = None" using vs by (simp add: nth_append)
  with vs have "snd (move_loop 0 ?n ?r) = Some UninitialisedRead"
    by (intro move_loop_unwritten [of 0 "length ?vs"]) auto
  with fl b assms(2,4) have "ending (sort_playlists pc) = Crashed UninitialisedRead"
    by (cases "move_loop 0 ?n ?r") (simp add: sort_playlists_flattened [of pc b])
  with fl count show ?thesis by blast
qed


theorem sort_playlists_reads_unwritten_slot_witness:
  "balanced [Playlist True ''b'', Placeholder, Playlist True ''a''] \<and>
   unloaded [Playlist True ''b'', Placeholder, Playlist True ''a''] = 0 \<and>
   Placeholder \<in> set [Playlist True ''b'', Placeholder, Playlist True ''a''] \<and>
   (\<exists>e \<in> set [Playlist True ''b'', Placeholder, Playlist True ''a'']. makes_node e) \<and>
   (\<exists>reorder. flattened [Playlist True ''b'', Placeholder, Playlist True ''a''] = Inr reorder \<and>
      length (filter (\<lambda>slot. slot \<noteq> None) reorder) < 3 \<and>
      ending (sort_playlists [Playlist True ''b'', Placeholder, Playlist True ''a'']) =
        Crashed UninitialisedRead)"
proof -
  let ?pc = "[Playlist True ''b'', Placeholder, Playlist True ''a'']"
  have h: "balanced ?pc" "unloaded ?pc = 0" "Placeholder \<in> set ?pc"
    "\<exists>e \<in> set ?pc. makes_node e"
    by (simp_all add: balanced_def)
  from sort_playlists_reads_unwritten_slot [OF h] h show ?thesis
    by (simp add: numeral_3_eq_3)
qed

section \<open>Folders without children\<close>

text \<open>
  \<^verbatim>\<open>_flatten_list\<close> stores \<^verbatim>\<open>end_index\<close> inside \<^verbatim>\<open>if (head->children != NULL)\<close>, the test
  that guards the descent into the children. A folder whose start is followed at once by
  its end has no children, so its node is flattened like a playlist and the position of
  its end marker is never stored, although \<^verbatim>\<open>SP_PLAYLIST_TYPE_END_FOLDER\<close> has recorded
  it in \<^verbatim>\<open>end_index\<close>. The three theorems below run the model on containers that hold
  such a folder.

  Claim C4 (every position of a folder end occurs exactly once in what \<^verbatim>\<open>flatten_list\<close>
  writes) fails on the container that holds one folder and nothing else: of the positions
  0 and 1 only 0 is written, slot 1 of \<^verbatim>\<open>reorder\<close> stays as \<^verbatim>\<open>malloc\<close> left it.
\<close>

theorem flatten_list_empty_folder:
  "balanced [StartFolder ''A'', EndFolder] \<and>
   unloaded [StartFolder ''A'', EndFolder] = 0 \<and>
   flattened [StartFolder ''A'', EndFolder] = Inr [Some 0, None]"
  by code_simp

text \<open>
  Claim C7 (the end position of every folder follows the last position of the folder's
  subtree) fails on the same container: the node of the folder carries the end position
  1, and \<^verbatim>\<open>_flatten_list\<close> returns with \<^verbatim>\<open>*idx\<close> at 1, having stored the position 0 only.
\<close>

theorem flatten_list_rec_empty_folder:
  "items_built [StartFolder ''A'', EndFolder] =
     [Node \<lparr>index = 0, end_index = 1, name = ''A''\<rparr> []] \<and>
   flatten_list_rec (sort_list (items_built [StartFolder ''A'', EndFolder]))
     (replicate 2 None, 0) = Inr ([Some 0, None], 1)"
  by code_simp

text \<open>
  Claim C1 (the moves made turn the original order into the target permutation) fails on
  the playlist \<open>b\<close> followed by the folder \<open>a\<close> without entries: \<^verbatim>\<open>reorder\<close> holds the
  positions 1 and 0 and an unwritten slot, the second loop calls
  \<^verbatim>\<open>sp_playlistcontainer_move_playlist (pc, 1, 0)\<close>, and \<^verbatim>\<open>recalculate_indexes\<close> then reads
  the unwritten slot. The one move made puts the start of the folder before the playlist
  and leaves its end behind it: the order of positions is 1, 0, 2, with the playlist
  inside the folder.
\<close>

theorem sort_playlists_empty_folder:
  "balanced [Playlist True ''b'', StartFolder ''a'', EndFolder] \<and>
   unloaded [Playlist True ''b'', StartFolder ''a'', EndFolder] = 0 \<and>
   flattened [Playlist True ''b'', StartFolder ''a'', EndFolder] = Inr [Some 1, Some 0, None] \<and>
   sort_playlists [Playlist True ''b'', StartFolder ''a'', EndFolder] =
     \<lparr>moves = [(1, 0)], could_not_be_loaded = None, ending = Crashed UninitialisedRead\<rparr> \<and>
   apply_moves [0, 1, 2 :: int] [(1, 0)] = [1, 0, 2]"
  by code_simp

section \<open>The tree of a valid container\<close>

lemma entries_of_append: "entries_of (xs @ ys) = entries_of xs @ entries_of ys"
  by (induction xs rule: entries_of.induct) auto

lemma renumber_Nil_iff: "renumber i f = [] \<longleftrightarrow> f = []"
  by (cases "(i, f)" rule: renumber.cases) auto

lemma renumber_append:
  "renumber i (xs @ ys) = renumber i xs @ renumber (i + int (length (entries_of xs))) ys"
  by (induction i xs rule: renumber.induct) (auto simp: add.assoc)

lemma prefix_of_append: "prefix_of (ch @ ch') ps = prefix_of ch ps @ entries_of ch'"
  by (cases ps) (auto simp: entries_of_append)

lemma build_loop_append:
  "build_loop pc i b = Inr b' \<Longrightarrow>
   build_loop (pc @ pc') i b = build_loop pc' (i + int (length pc)) b'"
proof (induction pc i b rule: build_loop.induct)
  case (4 pc i b)
  then show ?case by (cases "parents b") (auto simp: add.assoc)
qed (auto simp: add.assoc split: if_splits)

lemma build_loop_entries_of:
  "build_loop (entries_of f) i b = Inr (b\<lparr>chain := chain b @ renumber i f\<rparr>)"
proof (induction i f arbitrary: b rule: renumber.induct)
  case (1 i)
  then show ?case by simp
next
  case (2 i it ch nxt)
  show ?case
  proof (cases "ch = []")
    case True
    then have "\<not> ch \<noteq> []" by simp
    from "2.IH"(3) [OF this, of "b\<lparr>chain := chain b @ [Node (create_playlist_item i (name it)) []]\<rparr>"]
    show ?thesis using True by (simp add: create_playlist_item_def)
  next
    case False
    let ?p = "create_playlist_item i (name it)"
    let ?b1 = "b\<lparr>parents := (?p, chain b) # parents b, chain := []\<rparr>"
    let ?n = "int (length (entries_of ch))"
    have "build_loop (entries_of (Node it ch # nxt)) i b =
        build_loop (entries_of ch @ EndFolder # entries_of nxt) (i + 1) ?b1"
      using False by simp
    also have "\<dots> = build_loop (EndFolder # entries_of nxt) (i + 1 + ?n)
        (?b1\<lparr>chain := chain ?b1 @ renumber (i + 1) ch\<rparr>)"
      using build_loop_append [OF "2.IH"(1) [OF False, of ?b1]] by simp
    also have "\<dots> = build_loop (entries_of nxt) (i + 2 + ?n)
        (b\<lparr>chain := chain b @ [Node (?p\<lparr>end_index := i + 1 + ?n\<rparr>) (renumber (i + 1) ch)]\<rparr>)"
      by (simp add: add.assoc)
    also have "\<dots> = Inr (b\<lparr>chain := (chain b @
        [Node (?p\<lparr>end_index := i + 1 + ?n\<rparr>) (renumber (i + 1) ch)]) @ renumber (i + 2 + ?n) nxt\<rparr>)"
      using "2.IH"(2) [OF False, of "b\<lparr>chain := chain b @
        [Node (?p\<lparr>end_index := i + 1 + ?n\<rparr>) (renumber (i + 1) ch)]\<rparr>"] by simp
    finally show ?thesis using False by (simp add: create_playlist_item_def)
  qed
qed


lemma no_empty_folder_tl: "no_empty_folder (e # pc) \<Longrightarrow> no_empty_folder pc"
  by (cases "e # pc" rule: no_empty_folder.cases) auto

lemma no_empty_folder_start:
  "no_empty_folder (StartFolder nm # pc) \<Longrightarrow> pc = [] \<or> hd pc \<noteq> EndFolder"
  by (cases pc) auto

lemma unloaded_Cons_0: "unloaded (e # pc) = 0 \<Longrightarrow> unloaded pc = 0 \<and> e \<noteq> Playlist False nm"
  using unloaded_nonneg [of pc] by (cases e) (auto split: if_splits)

lemma build_loop_prefix:
  "build_loop pc i b = Inr b' \<Longrightarrow> unloaded pc = 0 \<Longrightarrow> Placeholder \<notin> set pc \<Longrightarrow>
   no_empty_folder pc \<Longrightarrow>
   (chain b = [] \<Longrightarrow> parents b \<noteq> [] \<Longrightarrow> pc = [] \<or> hd pc \<noteq> EndFolder) \<Longrightarrow>
   prefix_of (chain b') (parents b') = prefix_of (chain b) (parents b) @ pc"
proof (induction pc i b rule: build_loop.induct)
  case (1 i b)
  then show ?case by simp
next
  case (2 is_loaded nm pc i b)
  from "2.prems"(2) have ld: "is_loaded" and un: "unloaded pc = 0"
    using unloaded_Cons_0 [of "Playlist is_loaded nm" pc nm] by auto
  let ?b = "b\<lparr>chain := chain b @ [Node (create_playlist_item i nm) []]\<rparr>"
  from "2.prems"(1) ld have "build_loop pc (i + 1) ?b = Inr b'" by simp
  from "2.IH"(2) [OF _ this un] ld "2.prems"(3,4)
  have "prefix_of (chain b') (parents b') = prefix_of (chain ?b) (parents ?b) @ pc"
    by (auto dest: no_empty_folder_tl)
  with ld show ?case
    by (simp add: prefix_of_append create_playlist_item_def)
next
  case (3 nm pc i b)
  let ?b = "b\<lparr>parents := (create_playlist_item i nm, chain b) # parents b, chain := []\<rparr>"
  from "3.prems"(1) have "build_loop pc (i + 1) ?b = Inr b'" by simp
  moreover from "3.prems"(2) have "unloaded pc = 0" by simp
  moreover from "3.prems"(4) have "pc = [] \<or> hd pc \<noteq> EndFolder"
    by (rule no_empty_folder_start)
  ultimately have "prefix_of (chain b') (parents b') = prefix_of (chain ?b) (parents ?b) @ pc"
    using "3.prems"(3,4) by (intro "3.IH") (auto dest: no_empty_folder_tl)
  then show ?case by (simp add: create_playlist_item_def)
next
  case (4 pc i b)
  from "4.prems"(1) obtain p before outer where par: "parents b = (p, before) # outer"
    by (cases "parents b") auto
  with "4.prems"(5) have ne: "chain b \<noteq> []" by auto
  let ?b = "b\<lparr>chain := before @ [Node (p\<lparr>end_index := i\<rparr>) (chain b)], parents := outer\<rparr>"
  from "4.prems"(1) par have "build_loop pc (i + 1) ?b = Inr b'" by simp
  moreover from "4.prems"(2) have "unloaded pc = 0" by simp
  ultimately have "prefix_of (chain b') (parents b') = prefix_of (chain ?b) (parents ?b) @ pc"
    using "4.prems"(3,4) par by (intro "4.IH" [OF par refl]) (auto dest: no_empty_folder_tl)
  with ne par show ?case by (simp add: prefix_of_append)
next
  case (5 pc i b)
  then show ?case by simp
qed

lemma build_valid:
  assumes "valid pc"
  shows "build pc = Inr \<lparr>chain = items_built pc, parents = [], not_loaded = 0\<rparr>"
    and "entries_of (items_built pc) = pc"
    and "renumber 0 (items_built pc) = items_built pc"
proof -
  from assms have bal: "balanced pc" and un: "unloaded pc = 0" and np: "Placeholder \<notin> set pc"
    and ne: "no_empty_folder pc" by (simp_all add: valid_def)
  from bal obtain b where b: "build pc = Inr b" "parents b = []" "not_loaded b = unloaded pc"
    "items_built pc = chain b" by (rule build_balanced) blast
  with un have beq: "b = \<lparr>chain = items_built pc, parents = [], not_loaded = 0\<rparr>" by simp
  with b(1) show "build pc = Inr \<lparr>chain = items_built pc, parents = [], not_loaded = 0\<rparr>"
    by simp
  from b(1) have "build_loop pc 0 \<lparr>chain = [], parents = [], not_loaded = 0\<rparr> = Inr b"
    by (simp add: build_def)
  from build_loop_prefix [OF this un np ne] b(2,4)
  show enc: "entries_of (items_built pc) = pc" by simp
  from build_loop_entries_of [of "items_built pc" 0 "\<lparr>chain = [], parents = [], not_loaded = 0\<rparr>"] enc b(1)
  have "b = \<lparr>chain = renumber 0 (items_built pc), parents = [], not_loaded = 0\<rparr>"
    by (simp add: build_def)
  with b(4) show "renumber 0 (items_built pc) = items_built pc" by simp
qed

section \<open>Sorting a sorted container again\<close>

lemma below_iff: "below P head \<longleftrightarrow> (\<forall>n \<in> set head. all_chains P (children n))"
  by (induction P head rule: below.induct) (auto simp: all_chains_def)

lemma all_nodes_iff: "all_nodes Q head \<longleftrightarrow> (\<forall>n \<in> set head. Q n \<and> all_nodes Q (children n))"
  by (induction Q head rule: all_nodes.induct) auto

lemma all_chains_all_nodes:
  "all_chains (\<lambda>c. \<forall>n \<in> set c. Q n) head \<longleftrightarrow> all_nodes Q head"
  by (induction Q head rule: all_nodes.induct) (auto simp: all_chains_def)

lemma span_0 [simp]: "span i 0 = []"
  by (simp add: span_def)

lemma span_add: "span i (m + n) = span i m @ span (i + int m) n"
proof -
  have "[0..<m + n] = [0..<m] @ [m..<m + n]"
    using upt_add_eq_append [of 0 m n] by simp
  moreover have "[m..<m + n] = map (\<lambda>k. k + m) [0..<n]"
    using map_add_upt [of m n] by (simp add: add.commute)
  moreover have "map (\<lambda>k. i + int k) (map (\<lambda>k. k + m) [0..<n]) =
      map (\<lambda>k. i + int m + int k) [0..<n]"
    by (rule nth_equalityI) simp_all
  ultimately show ?thesis by (simp only: span_def map_append)
qed

lemma span_1: "span i (Suc 0) = [i]"
  by (simp add: span_def)

lemma span_Suc: "span i (Suc n) = i # span (i + 1) n"
  using span_add [of i 1 n] by (simp add: span_1)

lemma length_span [simp]: "length (span i n) = n"
  by (simp add: span_def)

lemma length_emitted: "length (emitted f) = length (entries_of f)"
  by (induction f rule: emitted.induct) auto

lemma emitted_renumber: "emitted (renumber i f) = span i (length (entries_of f))"
proof (induction i f rule: renumber.induct)
  case (1 i)
  then show ?case by simp
next
  case (2 i it ch nxt)
  show ?case
  proof (cases "ch = []")
    case True
    with 2 show ?thesis by (simp add: span_Suc)
  next
    case False
    let ?c = "length (entries_of ch)" and ?m = "length (entries_of nxt)"
    have "span i (length (entries_of (Node it ch # nxt))) = span i (Suc ?c + (Suc 0 + ?m))"
      using False by simp
    also have "\<dots> = i # span (i + 1) ?c @ [i + 1 + int ?c] @ span (i + 2 + int ?c) ?m"
      by (simp only: span_add span_Suc span_1) (simp add: span_Suc add.assoc)
    finally show ?thesis using False 2 by (simp add: renumber_Nil_iff)
  qed
qed

lemma agrees_emitted:
  "all_nodes (entry_agrees pc) f \<Longrightarrow> map (\<lambda>p. pc ! nat p) (emitted f) = entries_of f"
  by (induction f rule: emitted.induct) (auto simp: entry_agrees_def)

lemma entry_agrees_extend:
  "entry_agrees pc n \<Longrightarrow> entry_agrees (pc @ post) n"
  by (auto simp: entry_agrees_def nth_append split: if_splits)

lemma all_nodes_mono: "all_nodes Q f \<Longrightarrow> (\<And>n. Q n \<Longrightarrow> Q' n) \<Longrightarrow> all_nodes Q' f"
  by (induction Q f rule: all_nodes.induct) auto

lemma agrees_renumber:
  "all_nodes (entry_agrees (pre @ entries_of f)) (renumber (int (length pre)) f)"
proof (induction f arbitrary: pre rule: entries_of.induct)
  case 1
  then show ?case by simp
next
  case (2 it ch nxt)
  show ?case
  proof (cases "ch = []")
    case True
    let ?e = "Playlist True (name it)"
    from "2.IH"(2) [of "pre @ [?e]"]
    have "all_nodes (entry_agrees (pre @ ?e # entries_of nxt)) (renumber (int (length pre) + 1) nxt)"
      by (simp add: add.commute)
    moreover have "entry_agrees (pre @ ?e # entries_of nxt)
        (Node \<lparr>index = int (length pre), end_index = - 1, name = name it\<rparr> [])"
      by (simp add: entry_agrees_def)
    ultimately show ?thesis using True by simp
  next
    case False
    let ?s = "StartFolder (name it)"
    let ?c = "length (entries_of ch)"
    let ?all = "pre @ ?s # entries_of ch @ EndFolder # entries_of nxt"
    from "2.IH"(1) [OF False, of "pre @ [?s]"]
    have "all_nodes (entry_agrees ((pre @ ?s # entries_of ch) @ EndFolder # entries_of nxt))
        (renumber (int (length pre) + 1) ch)"
      by (intro all_nodes_mono [OF _ entry_agrees_extend]) (simp add: add.commute)
    then have ch: "all_nodes (entry_agrees ?all) (renumber (int (length pre) + 1) ch)" by simp
    from "2.IH"(2) [of "pre @ ?s # entries_of ch @ [EndFolder]"]
    have nxt: "all_nodes (entry_agrees ?all) (renumber (int (length pre) + 2 + int ?c) nxt)"
      by (simp add: add.commute add.left_commute)
    have e1: "?all ! length pre = ?s" by (simp add: nth_append)
    have "?all ! (length pre + 1 + ?c) = EndFolder"
      using nth_append_length [of "pre @ ?s # entries_of ch" EndFolder "entries_of nxt"] by simp
    moreover have "nat (int (length pre) + 1 + int ?c) = length pre + 1 + ?c" by simp
    ultimately have e2: "?all ! nat (int (length pre) + 1 + int ?c) = EndFolder" by simp
    have "entry_agrees ?all
        (Node \<lparr>index = int (length pre), end_index = int (length pre) + 1 + int ?c, name = name it\<rparr>
           (renumber (int (length pre) + 1) ch))"
      using False e1 e2 by (simp add: entry_agrees_def renumber_Nil_iff)
    with ch nxt False show ?thesis by (simp add: renumber_Nil_iff)
  qed
qed


lemma all_chains_iff:
  "all_chains P head \<longleftrightarrow> P head \<and> (\<forall>n \<in> set head. all_chains P (children n))"
  unfolding all_chains_def [of P head] below_iff ..

lemma all_chains_Nil: "all_chains P [] \<longleftrightarrow> P []"
  by (simp add: all_chains_def)

lemma sort_list_Nil_iff: "sort_list head = [] \<longleftrightarrow> head = []"
  using length_sort_list [of head] by auto

lemma key_sorted_child:
  "key (if children n \<noteq> [] then Node (item n) (sort_list (children n)) else n) = key n"
  by (simp add: key_def sort_list_Nil_iff)

lemma sort_list_all_chains:
  assumes step: "\<And>xs ys. P xs \<Longrightarrow> mset (map key ys) = mset (map key xs) \<Longrightarrow>
      sorted_wrt name_le ys \<Longrightarrow> R ys"
  shows "all_chains P head \<Longrightarrow> all_chains R (sort_list head)"
proof (induction head rule: sort_list.induct)
  case (1 head)
  let ?g = "\<lambda>n. if children n \<noteq> [] then Node (item n) (sort_list (children n)) else n"
  from "1.prems" have P: "P head" and sub: "\<forall>n \<in> set head. all_chains P (children n)"
    using all_chains_iff [of P head] by simp_all
  have eq: "sort_list head = merge_sort (map ?g head)"
    by (subst sort_list.simps) simp
  have keys: "map key (map ?g head) = map key head"
    by (simp add: key_sorted_child comp_def)
  have "mset (map key (merge_sort (map ?g head))) = mset (map key (map ?g head))"
    by (simp only: mset_map mset_merge_sort)
  then have "mset (map key (sort_list head)) = mset (map key head)"
    by (simp only: eq keys)
  from step [OF P this] have top: "R (sort_list head)"
    by (simp add: eq sorted_merge_sort)
  have "all_chains R (children n')" if "n' \<in> set (sort_list head)" for n'
  proof -
    from that obtain n where n: "n \<in> set head" "n' = ?g n"
      by (auto simp: eq set_merge_sort)
    show ?thesis
    proof (cases "children n = []")
      case True
      from sub n(1) True have "P []" by (auto simp: all_chains_Nil)
      from step [OF this, of "[]"] have "R []" by simp
      with True n(2) show ?thesis by (simp add: all_chains_Nil)
    next
      case False
      with "1.IH" [OF n(1)] sub n show ?thesis by simp
    qed
  qed
  with top show ?case using all_chains_iff [of R "sort_list head"] by simp
qed

lemma sorted_distinct_strict:
  assumes "sorted_wrt name_le ys" and "distinct (map (\<lambda>n. name (item n)) ys)"
  shows "sorted_wrt name_lt ys"
proof -
  have "name_lt a b" if "name_le a b" "name (item a) \<noteq> name (item b)" for a b
    using that strcmp_eq_0 [of "name (item a)" "name (item b)"]
    by (simp add: name_le_def name_lt_def)
  with assms show ?thesis
    by (induction ys) auto
qed

lemma names_of_key: "map (\<lambda>n. name (item n)) xs = map (\<lambda>k. name (fst k)) (map key xs)"
  by (simp add: key_def comp_def)

lemma sort_list_strict:
  assumes "siblings_distinct head"
  shows "all_chains (sorted_wrt name_lt) (sort_list head)"
proof (rule sort_list_all_chains [of "\<lambda>c. distinct (map (\<lambda>n. name (item n)) c)"])
  show "all_chains (\<lambda>c. distinct (map (\<lambda>n. name (item n)) c)) head"
    using assms by (simp add: siblings_distinct_def)
next
  fix xs ys :: "node list"
  assume d: "distinct (map (\<lambda>n. name (item n)) xs)"
    and m: "mset (map key ys) = mset (map key xs)" and s: "sorted_wrt name_le ys"
  from m have "mset (map (\<lambda>k. name (fst k)) (map key ys)) = mset (map (\<lambda>k. name (fst k)) (map key xs))"
    by (metis mset_map)
  then have "mset (map (\<lambda>n. name (item n)) ys) = mset (map (\<lambda>n. name (item n)) xs)"
    by (simp only: names_of_key)
  with d have "distinct (map (\<lambda>n. name (item n)) ys)"
    by (metis mset_eq_imp_distinct_iff)
  with s show "sorted_wrt name_lt ys" by (rule sorted_distinct_strict)
qed

lemma sort_list_agrees:
  assumes "all_nodes (entry_agrees pc) head"
  shows "all_nodes (entry_agrees pc) (sort_list head)"
proof -
  have "all_chains (\<lambda>c. \<forall>n \<in> set c. entry_agrees pc n) (sort_list head)"
  proof (rule sort_list_all_chains [of "\<lambda>c. \<forall>n \<in> set c. entry_agrees pc n"])
    show "all_chains (\<lambda>c. \<forall>n \<in> set c. entry_agrees pc n) head"
      using assms by (simp add: all_chains_all_nodes)
  next
    fix xs ys :: "node list"
    assume a: "\<forall>n \<in> set xs. entry_agrees pc n" and m: "mset (map key ys) = mset (map key xs)"
    show "\<forall>n \<in> set ys. entry_agrees pc n"
    proof
      fix n assume "n \<in> set ys"
      then have "key n \<in> set (map key ys)" by simp
      with m have "key n \<in> set (map key xs)" by (metis set_mset_mset)
      then obtain n' where "n' \<in> set xs" "key n' = key n" by auto
      with a show "entry_agrees pc n" by (auto simp: entry_agrees_def key_def)
    qed
  qed
  then show ?thesis by (simp add: all_chains_all_nodes)
qed


lemma merge_strict: "sorted_wrt name_lt (l @ r) \<Longrightarrow> merge l r = l @ r"
proof (induction l)
  case Nil
  then show ?case by simp
next
  case (Cons x l)
  show ?case
  proof (cases r)
    case Nil
    then show ?thesis by simp
  next
    case (Cons y r')
    with Cons.prems have "strcmp (name (item x)) (name (item y)) < 0"
      by (simp add: name_lt_def sorted_wrt_append)
    moreover from Cons.prems Cons.IH have "merge l r = l @ r" by simp
    ultimately show ?thesis using Cons by simp
  qed
qed

lemma merge_sort_strict: "sorted_wrt name_lt head \<Longrightarrow> merge_sort head = head"
proof (induction head rule: length_induct)
  case (1 head)
  show ?case
  proof (cases head rule: merge_sort_cases)
    case short
    then show ?thesis by simp
  next
    case (cut l r)
    from "1.prems" cut(1) have lr: "sorted_wrt name_lt (l @ r)" by simp
    then have "sorted_wrt name_lt l" "sorted_wrt name_lt r"
      by (simp_all add: sorted_wrt_append)
    with 1 cut have "merge_sort l = l" "merge_sort r = r" by auto
    with cut lr show ?thesis by (simp add: merge_strict)
  qed
qed

lemma sort_list_strict_id:
  "all_chains (sorted_wrt name_lt) head \<Longrightarrow> sort_list head = head"
proof (induction head rule: sort_list.induct)
  case (1 head)
  let ?g = "\<lambda>n. if children n \<noteq> [] then Node (item n) (sort_list (children n)) else n"
  from "1.prems" have top: "sorted_wrt name_lt head"
    and sub: "\<forall>n \<in> set head. all_chains (sorted_wrt name_lt) (children n)"
    using all_chains_iff [of "sorted_wrt name_lt" head] by simp_all
  have "?g n = n" if "n \<in> set head" for n
    using "1.IH" [OF that] sub that by (cases n) auto
  then have "map ?g head = head" by (simp add: map_idI)
  with top show ?case
    by (subst sort_list.simps) (simp add: merge_sort_strict)
qed

lemma names_renumber:
  "map (\<lambda>n. name (item n)) (renumber i f) = map (\<lambda>n. name (item n)) f"
  by (induction i f rule: renumber.induct) auto

lemma name_lt_map:
  "sorted_wrt name_lt c \<longleftrightarrow>
   sorted_wrt (\<lambda>a b. strcmp a b < 0) (map (\<lambda>n. name (item n)) c)"
  by (simp add: sorted_wrt_map name_lt_def [abs_def])

lemma strict_renumber: "sorted_wrt name_lt c \<Longrightarrow> sorted_wrt name_lt (renumber i c)"
  by (simp add: name_lt_map names_renumber)

lemma below_renumber:
  "below (sorted_wrt name_lt) f \<Longrightarrow> below (sorted_wrt name_lt) (renumber i f)"
  by (induction i f rule: renumber.induct) (auto simp: strict_renumber)

lemma all_chains_renumber:
  "all_chains (sorted_wrt name_lt) f \<Longrightarrow> all_chains (sorted_wrt name_lt) (renumber i f)"
  by (simp add: all_chains_def strict_renumber below_renumber)

lemma span_nth: "k < n \<Longrightarrow> span i n ! k = i + int k"
  by (simp add: span_def)

lemma move_loop_identity:
  "i \<le> n \<Longrightarrow> move_loop i n (map Some (span 0 n)) = ([], None)"
proof (induction "n - i" arbitrary: i)
  case 0
  then show ?case by (subst move_loop.simps) simp
next
  case (Suc d)
  then have "i < n" "d = n - Suc i" "Suc i \<le> n" by auto
  with Suc.hyps(1) [of "Suc i"] show ?case
    by (subst move_loop.simps) (simp add: fetch_def span_nth)
qed


lemma span_0_upt: "span 0 n = map int [0..<n]"
  by (simp add: span_def)

lemma length_target:
  assumes "valid pc"
  shows "length (target pc) = length pc"
proof -
  have "length (target pc) = length (emitted (items_built pc))"
    using arg_cong [OF mset_emitted_sort_list, where f = size] by (simp add: target_def)
  with build_valid(2) [OF assms] show ?thesis by (simp add: length_emitted)
qed

lemma reordered_entries:
  assumes "valid pc"
  shows "reordered pc (target pc) = entries_of (sort_list (items_built pc))"
proof -
  from agrees_renumber [of "[]" "items_built pc"] build_valid(2,3) [OF assms]
  have "all_nodes (entry_agrees pc) (items_built pc)" by simp
  then have "all_nodes (entry_agrees pc) (sort_list (items_built pc))"
    by (rule sort_list_agrees)
  then show ?thesis unfolding target_def reordered_def by (rule agrees_emitted)
qed

lemma sort_playlists_entries_of:
  assumes "all_chains (sorted_wrt name_lt) f"
  shows "items_built (entries_of f) = renumber 0 f"
    and "target (entries_of f) = map int [0..<length (entries_of f)]"
    and "sort_playlists (entries_of f) =
      \<lparr>moves = [], could_not_be_loaded = None, ending = Returned 1\<rparr>"
proof -
  let ?pc = "entries_of f" and ?n = "length (entries_of f)"
  have b: "build ?pc = Inr \<lparr>chain = renumber 0 f, parents = [], not_loaded = 0\<rparr>"
    using build_loop_entries_of [of f 0 "\<lparr>chain = [], parents = [], not_loaded = 0\<rparr>"]
    by (simp add: build_def)
  then show items: "items_built ?pc = renumber 0 f" by (simp add: items_built_def)
  from assms have sorted: "sort_list (renumber 0 f) = renumber 0 f"
    by (intro sort_list_strict_id all_chains_renumber)
  with items show "target ?pc = map int [0..<?n]"
    by (simp add: target_def emitted_renumber span_0_upt)
  show "sort_playlists ?pc = \<lparr>moves = [], could_not_be_loaded = None, ending = Returned 1\<rparr>"
  proof (cases "f = []")
    case True
    with b show ?thesis by (simp add: sort_playlists_def)
  next
    case False
    then have ne: "renumber 0 f \<noteq> []" by (simp add: renumber_Nil_iff)
    then have "flatten_list (renumber 0 f) (replicate ?n None) = Inr (map Some (span 0 ?n))"
      by (simp add: flatten_list_emitted emitted_renumber)
    with b ne sorted show ?thesis
      by (simp add: sort_playlists_def move_loop_identity)
  qed
qed

text \<open>
  Claim C3 says that running the pipeline on the order it produced yields the identity
  permutation and no move. Two playlists of the same name are a valid container;
  \<^verbatim>\<open>merge\<close> puts the second before the first, the reordered container reads the same
  as the original one, and the second run swaps them again.
\<close>

theorem second_run_swaps_equal_names:
  "valid [Playlist True ''a'', Playlist True ''a''] \<and>
   target [Playlist True ''a'', Playlist True ''a''] = [1, 0] \<and>
   reordered [Playlist True ''a'', Playlist True ''a''] [1, 0] =
     [Playlist True ''a'', Playlist True ''a''] \<and>
   target (reordered [Playlist True ''a'', Playlist True ''a''] [1, 0]) = [1, 0] \<and>
   moves (sort_playlists (reordered [Playlist True ''a'', Playlist True ''a''] [1, 0])) =
     [(1, 0)]"
  by code_simp

text \<open>
  Claim C3, amended. For every valid container (balanced folder markers, every playlist
  loaded, no placeholder, no folder without an entry) in which no two entries of the same
  folder, or of the top level, have the same name: the target permutation has one position
  per entry, and on the container reordered by it the pipeline yields the identity
  permutation and \<^verbatim>\<open>sort_playlists\<close> makes no move.
\<close>

theorem second_run_is_identity:
  assumes "valid pc" and "siblings_distinct (items_built pc)"
  shows "length (target pc) = length pc \<and>
    target (reordered pc (target pc)) = map int [0..<length pc] \<and>
    sort_playlists (reordered pc (target pc)) =
      \<lparr>moves = [], could_not_be_loaded = None, ending = Returned 1\<rparr>"
proof -
  let ?s = "sort_list (items_built pc)"
  have pc': "reordered pc (target pc) = entries_of ?s"
    using assms(1) by (rule reordered_entries)
  have len: "length (target pc) = length pc" using assms(1) by (rule length_target)
  from arg_cong [OF pc', where f = length] len have n: "length (entries_of ?s) = length pc"
    by (simp add: reordered_def)
  from assms(2) have "all_chains (sorted_wrt name_lt) ?s" by (rule sort_list_strict)
  from sort_playlists_entries_of(2,3) [OF this] pc' n len show ?thesis by simp
qed


theorem second_run_is_identity_witness:
  "valid [Playlist True ''banana'', StartFolder ''Zoo'', Playlist True ''yak'',
      Playlist True ''ant'', EndFolder, Playlist True ''apple''] \<and>
   siblings_distinct (items_built [Playlist True ''banana'', StartFolder ''Zoo'',
      Playlist True ''yak'', Playlist True ''ant'', EndFolder, Playlist True ''apple'']) \<and>
   target [Playlist True ''banana'', StartFolder ''Zoo'', Playlist True ''yak'',
      Playlist True ''ant'', EndFolder, Playlist True ''apple''] = [1, 3, 2, 4, 5, 0] \<and>
   reordered [Playlist True ''banana'', StartFolder ''Zoo'', Playlist True ''yak'',
      Playlist True ''ant'', EndFolder, Playlist True ''apple''] [1, 3, 2, 4, 5, 0] =
     [StartFolder ''Zoo'', Playlist True ''ant'', Playlist True ''yak'', EndFolder,
      Playlist True ''apple'', Playlist True ''banana''] \<and>
   target [StartFolder ''Zoo'', Playlist True ''ant'', Playlist True ''yak'', EndFolder,
      Playlist True ''apple'', Playlist True ''banana''] = [0, 1, 2, 3, 4, 5] \<and>
   sort_playlists [StartFolder ''Zoo'', Playlist True ''ant'', Playlist True ''yak'', EndFolder,
      Playlist True ''apple'', Playlist True ''banana''] =
     \<lparr>moves = [], could_not_be_loaded = None, ending = Returned 1\<rparr>"
proof -
  let ?pc = "[Playlist True ''banana'', StartFolder ''Zoo'', Playlist True ''yak'',
      Playlist True ''ant'', EndFolder, Playlist True ''apple'']"
  have v: "valid ?pc" by code_simp
  have d: "siblings_distinct (items_built ?pc)" by code_simp
  have t: "target ?pc = [1, 3, 2, 4, 5, 0]" by code_simp
  have r: "reordered ?pc [1, 3, 2, 4, 5, 0] =
      [StartFolder ''Zoo'', Playlist True ''ant'', Playlist True ''yak'', EndFolder,
       Playlist True ''apple'', Playlist True ''banana'']" by code_simp
  have n: "map int [0..<length ?pc] = [0, 1, 2, 3, 4, 5]" by code_simp
  from second_run_is_identity [OF v d] show ?thesis
    unfolding t r n using v d by simp
qed

section \<open>The moves of a run on a valid container\<close>

lemma length_remove_then_reinsert:
  "s < length a \<Longrightarrow> i \<le> s \<Longrightarrow> length (remove_then_reinsert a (int s, int i)) = length a"
  by (simp add: remove_then_reinsert_def Let_def)

lemma nth_reinserted_behind:
  assumes "i \<le> length others" and "i < p" and "p \<le> length others"
  shows "(take i others @ x # drop i others) ! p = others ! (p - 1)"
proof -
  from assms obtain q where q: "p - i = Suc q" "i + q = p - 1" "i + q < length others"
    by (cases "p - i") auto
  have "(take i others @ x # drop i others) ! p = (x # drop i others) ! (p - i)"
    using assms by (simp add: nth_append min_def)
  also have "\<dots> = drop i others ! q" using q by simp
  also have "\<dots> = others ! (i + q)" using q assms by simp
  finally show ?thesis using q by simp
qed

lemma nth_remove_then_reinsert:
  assumes "s < length a" and "i \<le> s" and "p < length a"
  shows "remove_then_reinsert a (int s, int i) ! p =
    (if p < i then a ! p else if p = i then a ! s else if p \<le> s then a ! (p - 1) else a ! p)"
proof -
  let ?others = "take s a @ drop (Suc s) a"
  have len: "length ?others = length a - 1" using assms by simp
  have eq: "remove_then_reinsert a (int s, int i) = take i ?others @ a ! s # drop i ?others"
    by (simp add: remove_then_reinsert_def Let_def)
  have o: "?others ! q = (if q < s then a ! q else a ! Suc q)" if "q < length a - 1" for q
    using that assms by (auto simp: nth_append)
  consider "p < i" | "p = i" | "i < p" "p \<le> s" | "s < p" by linarith
  then show ?thesis
  proof cases
    case 1
    with assms have "(take i ?others @ a ! s # drop i ?others) ! p = ?others ! p"
      by (simp add: nth_append)
    also have "\<dots> = a ! p"
    proof -
      from 1 assms have "p < length a - 1" "p < s" by linarith+
      with o [of p] show ?thesis by simp
    qed
    finally show ?thesis using 1 by (simp only: eq if_True)
  next
    case 2
    with assms have "(take i ?others @ a ! s # drop i ?others) ! p = a ! s"
      by (simp add: nth_append)
    then show ?thesis using 2 by (simp only: eq) simp
  next
    case 3
    with assms len have "(take i ?others @ a ! s # drop i ?others) ! p = ?others ! (p - 1)"
      by (intro nth_reinserted_behind) simp_all
    also have "\<dots> = a ! (p - 1)"
    proof -
      from 3 assms have "p - 1 < length a - 1" "p - 1 < s" by linarith+
      with o [of "p - 1"] show ?thesis by simp
    qed
    finally show ?thesis using 3 by (simp only: eq) simp
  next
    case 4
    with assms len have "(take i ?others @ a ! s # drop i ?others) ! p = ?others ! (p - 1)"
      by (intro nth_reinserted_behind) simp_all
    also have "\<dots> = a ! p"
    proof -
      from 4 assms have "p - 1 < length a - 1" "\<not> p - 1 < s" "Suc (p - 1) = p" by linarith+
      with o [of "p - 1"] show ?thesis by simp
    qed
    finally show ?thesis using 4 assms by (simp only: eq) simp
  qed
qed

lemma recalculate_loop_written:
  "i \<le> length w \<Longrightarrow>
   recalculate_loop (map Some w) (length w) original_index i =
     Inr (map Some (take i w @ map (bump original_index) (drop i w)))"
proof (induction "length w - i" arbitrary: i w)
  case 0
  then show ?case by (subst recalculate_loop.simps) simp
next
  case (Suc d)
  then have i: "i < length w" by simp
  let ?v = "w ! i"
  let ?w = "w[i := bump original_index ?v]"
  have upd: "(if ?v < original_index then (map Some w)[i := Some (?v + 1)] else map Some w) =
      map Some ?w"
  proof (cases "?v < original_index")
    case True
    then show ?thesis by (simp add: bump_def map_update)
  next
    case False
    then have "?w = w" by (simp add: bump_def)
    with False show ?thesis by simp
  qed
  have "recalculate_loop (map Some w) (length w) original_index i =
      recalculate_loop (map Some ?w) (length ?w) original_index (Suc i)"
    using i upd by (subst recalculate_loop.simps) (simp add: fetch_def)
  also have "\<dots> = Inr (map Some (take (Suc i) ?w @ map (bump original_index) (drop (Suc i) ?w)))"
    using Suc.hyps(2) i by (intro Suc.hyps(1)) auto
  also have "take (Suc i) ?w @ map (bump original_index) (drop (Suc i) ?w) =
      take i w @ map (bump original_index) (drop i w)"
    using i by (simp add: take_Suc_conv_app_nth Cons_nth_drop_Suc [symmetric])
  finally show ?case .
qed

lemma recalculate_indexes_written:
  "moved < length w \<Longrightarrow>
   recalculate_indexes (map Some w) (length w) moved =
     Inr (map Some (take moved w @ map (bump (w ! moved)) (drop moved w)))"
  by (simp add: recalculate_indexes_def fetch_def recalculate_loop_written)


lemma move_loop_step_written:
  assumes "i < length w"
  shows "move_loop i (length w) (map Some w) =
    (if int i \<noteq> w ! i
     then (case move_loop (Suc i) (length w)
                 (map Some (take i w @ map (bump (w ! i)) (drop i w))) of
             (ms, out) \<Rightarrow> ((w ! i, int i) # ms, out))
     else move_loop (Suc i) (length w) (map Some w))"
  using assms
  by (subst move_loop.simps) (simp add: fetch_def recalculate_indexes_written)

lemma placed_keep:
  assumes "distinct t" and "placed i w a t" and "i < length t" and "w ! i = int i"
  shows "placed (Suc i) w a t"
proof -
  from assms(2) have len: "length w = length t" "length a = length t"
    and before: "\<forall>j<i. a ! j = t ! j"
    and rest: "\<And>j. i \<le> j \<Longrightarrow> j < length t \<Longrightarrow>
      int i \<le> w ! j \<and> w ! j < int (length t) \<and> a ! nat (w ! j) = t ! j"
    by (simp_all add: placed_def)
  from rest [of i] assms(3,4) have here: "a ! i = t ! i" by simp
  have "int (Suc i) \<le> w ! j" if "Suc i \<le> j" "j < length t" for j
  proof -
    from rest [of j] that have j: "int i \<le> w ! j" "a ! nat (w ! j) = t ! j" by simp_all
    have "w ! j \<noteq> int i"
    proof
      assume "w ! j = int i"
      with j here have "t ! j = t ! i" by simp
      with assms(1,3) that show False by (simp add: nth_eq_iff_index_eq)
    qed
    with j show ?thesis by simp
  qed
  moreover have "a ! j = t ! j" if "j < Suc i" for j
    using that before here by (cases "j = i") simp_all
  ultimately show ?thesis using len rest by (simp add: placed_def)
qed

lemma placed_move:
  assumes "distinct t" and "placed i w a t" and "i < length t" and "w ! i \<noteq> int i"
  shows "placed (Suc i) (take i w @ map (bump (w ! i)) (drop i w))
    (remove_then_reinsert a (w ! i, int i)) t"
proof -
  from assms(2) have len: "length w = length t" "length a = length t"
    and before: "\<forall>j<i. a ! j = t ! j"
    and rest: "\<And>j. i \<le> j \<Longrightarrow> j < length t \<Longrightarrow>
      int i \<le> w ! j \<and> w ! j < int (length t) \<and> a ! nat (w ! j) = t ! j"
    by (simp_all add: placed_def)
  define s where "s = nat (w ! i)"
  from rest [of i] assms(3) have wi: "int i \<le> w ! i" "w ! i < int (length t)"
    "a ! nat (w ! i) = t ! i" by simp_all
  with assms(4) have s: "w ! i = int s" "i < s" "s < length t" "a ! s = t ! i"
    unfolding s_def by linarith+
  let ?w = "take i w @ map (bump (w ! i)) (drop i w)"
  let ?a = "remove_then_reinsert a (int s, int i)"
  have la: "length ?a = length t"
    using s len by (simp add: length_remove_then_reinsert)
  have na: "?a ! p = (if p < i then a ! p else if p = i then a ! s
      else if p \<le> s then a ! (p - 1) else a ! p)" if "p < length t" for p
    using that s len by (intro nth_remove_then_reinsert) simp_all
  have nw: "?w ! j = bump (int s) (w ! j)" if "i \<le> j" "j < length t" for j
    using that len s by (simp add: nth_append)
  have "int (Suc i) \<le> ?w ! j \<and> ?w ! j < int (length t) \<and> ?a ! nat (?w ! j) = t ! j"
    if "Suc i \<le> j" "j < length t" for j
  proof -
    from rest [of j] that
    have j: "int i \<le> w ! j" "w ! j < int (length t)" "a ! nat (w ! j) = t ! j" by simp_all
    have ne: "w ! j \<noteq> int s"
    proof
      assume "w ! j = int s"
      with j s have "t ! j = t ! i" by simp
      with assms(1,3) that show False by (simp add: nth_eq_iff_index_eq)
    qed
    show ?thesis
    proof (cases "w ! j < int s")
      case True
      then have v: "?w ! j = w ! j + 1" using nw [of j] that by (simp add: bump_def)
      from True j s have p: "nat (w ! j + 1) < length t" "\<not> nat (w ! j + 1) < i"
        "nat (w ! j + 1) \<noteq> i" "nat (w ! j + 1) \<le> s" "nat (w ! j + 1) - 1 = nat (w ! j)"
        by linarith+
      from na [OF p(1)] p j have "?a ! nat (w ! j + 1) = t ! j" by simp
      with v j True s show ?thesis by simp
    next
      case False
      with ne have gt: "int s < w ! j" by simp
      then have v: "?w ! j = w ! j" using nw [of j] that by (simp add: bump_def)
      from gt j s have p: "nat (w ! j) < length t" "\<not> nat (w ! j) < i"
        "nat (w ! j) \<noteq> i" "\<not> nat (w ! j) \<le> s"
        by linarith+
      from na [OF p(1)] p j have "?a ! nat (w ! j) = t ! j" by simp
      with v j gt s show ?thesis by simp
    qed
  qed
  moreover have "?a ! j = t ! j" if "j < Suc i" for j
  proof (cases "j = i")
    case True
    with na [of i] s show ?thesis by simp
  next
    case False
    with that have "j < i" by simp
    with na [of j] before s show ?thesis by simp
  qed
  moreover have "length ?w = length t" using len by simp
  ultimately show ?thesis using la s(1) by (simp add: placed_def)
qed

lemma move_loop_places:
  "distinct t \<Longrightarrow> placed i w a t \<Longrightarrow> i \<le> length t \<Longrightarrow>
   \<exists>ms. move_loop i (length t) (map Some w) = (ms, None) \<and> apply_moves a ms = t"
proof (induction "length t - i" arbitrary: i w a)
  case 0
  then have i: "i = length t" by simp
  with 0 have "a = t" by (intro nth_equalityI) (simp_all add: placed_def)
  moreover have "move_loop i (length t) (map Some w) = ([], None)"
    using i by (subst move_loop.simps) simp
  ultimately show ?case by (simp add: apply_moves_def)
next
  case (Suc d)
  then have i: "i < length t" and d: "d = length t - Suc i" by simp_all
  from Suc.prems(2) have len: "length w = length t" by (simp add: placed_def)
  show ?case
  proof (cases "w ! i = int i")
    case True
    from placed_keep [OF Suc.prems(1,2) i True] have "placed (Suc i) w a t" .
    from Suc.hyps(1) [OF d Suc.prems(1) this] i
    obtain ms where "move_loop (Suc i) (length t) (map Some w) = (ms, None)" "apply_moves a ms = t"
      by auto
    with True i len move_loop_step_written [of i w] show ?thesis by simp
  next
    case False
    let ?w = "take i w @ map (bump (w ! i)) (drop i w)"
    let ?a = "remove_then_reinsert a (w ! i, int i)"
    from placed_move [OF Suc.prems(1,2) i False] have "placed (Suc i) ?w ?a t" .
    from Suc.hyps(1) [OF d Suc.prems(1) this] i
    obtain ms where ms: "move_loop (Suc i) (length t) (map Some ?w) = (ms, None)"
      "apply_moves ?a ms = t"
      by auto
    from False i len ms(1) move_loop_step_written [of i w]
    have "move_loop i (length t) (map Some w) = ((w ! i, int i) # ms, None)" by simp
    moreover from ms(2) have "apply_moves a ((w ! i, int i) # ms) = t"
      by (simp add: apply_moves_def)
    ultimately show ?thesis by blast
  qed
qed


lemma target_permutation:
  assumes "valid pc"
  shows "mset (target pc) = mset (map int [0..<length pc])"
proof -
  from build_valid(2,3) [OF assms] emitted_renumber [of 0 "items_built pc"]
  have "emitted (items_built pc) = map int [0..<length pc]"
    by (simp add: span_0_upt)
  then show ?thesis by (simp add: target_def mset_emitted_sort_list)
qed

text \<open>
  For the valid containers (which have no folder without an entry) the moves are
  right: the target is a permutation of the positions of the container, the
  run returns, and its moves, applied in order to the array of the original positions,
  yield the target permutation.
\<close>

theorem moves_reach_target:
  assumes "valid pc"
  shows "mset (target pc) = mset (map int [0..<length pc]) \<and>
    ending (sort_playlists pc) = Returned 1 \<and>
    apply_moves (map int [0..<length pc]) (moves (sort_playlists pc)) = target pc"
proof -
  let ?n = "length pc" and ?t = "target pc"
  let ?a = "map int [0..<length pc]"
  have perm: "mset ?t = mset ?a" using assms by (rule target_permutation)
  have len: "length ?t = ?n" using assms by (rule length_target)
  have "distinct ?a" by (simp add: distinct_map)
  with perm have dist: "distinct ?t" by (metis mset_eq_imp_distinct_iff)
  have range: "0 \<le> ?t ! j \<and> ?t ! j < int ?n" if "j < ?n" for j
  proof -
    from that len have "?t ! j \<in> set ?t" by simp
    with perm have "?t ! j \<in> set ?a" by (metis set_mset_mset)
    then show ?thesis by auto
  qed
  have "?a ! nat (?t ! j) = ?t ! j" if "j < ?n" for j
  proof -
    from range [OF that] have "nat (?t ! j) < ?n" "int (nat (?t ! j)) = ?t ! j" by linarith+
    then show ?thesis by simp
  qed
  with len range have "placed 0 ?t ?a ?t"
    by (simp add: placed_def)
  from move_loop_places [OF dist this] len
  obtain ms where ms: "move_loop 0 ?n (map Some ?t) = (ms, None)" "apply_moves ?a ms = ?t"
    by auto
  from build_valid(1) [OF assms]
  have b: "build pc = Inr \<lparr>chain = items_built pc, parents = [], not_loaded = 0\<rparr>" .
  have "sort_playlists pc = \<lparr>moves = ms, could_not_be_loaded = None, ending = Returned 1\<rparr>"
  proof (cases "items_built pc = []")
    case True
    with len have "?n = 0" by (simp add: target_def sort_list_Nil_iff [THEN iffD2])
    with ms(1) have "ms = []" by (subst (asm) move_loop.simps) simp
    with b True show ?thesis by (simp add: sort_playlists_def)
  next
    case False
    then have "sort_list (items_built pc) \<noteq> []" by (simp add: sort_list_Nil_iff)
    then have "flatten_list (sort_list (items_built pc)) (replicate ?n None) = Inr (map Some ?t)"
      using len by (simp add: flatten_list_emitted target_def)
    with b False ms(1) show ?thesis by (simp add: sort_playlists_def)
  qed
  with perm ms(2) show ?thesis by simp
qed


theorem moves_reach_target_witness:
  "valid [Playlist True ''banana'', StartFolder ''Zoo'', Playlist True ''yak'',
      Playlist True ''ant'', EndFolder, Playlist True ''apple''] \<and>
   moves (sort_playlists [Playlist True ''banana'', StartFolder ''Zoo'', Playlist True ''yak'',
      Playlist True ''ant'', EndFolder, Playlist True ''apple'']) =
     [(1, 0), (3, 1), (3, 2), (4, 3), (5, 4)] \<and>
   apply_moves [0, 1, 2, 3, 4, 5] [(1, 0), (3, 1), (3, 2), (4, 3), (5, 4)] = [1, 3, 2, 4, 5, 0 :: int] \<and>
   target [Playlist True ''banana'', StartFolder ''Zoo'', Playlist True ''yak'',
      Playlist True ''ant'', EndFolder, Playlist True ''apple''] = [1, 3, 2, 4, 5, 0]"
proof -
  let ?pc = "[Playlist True ''banana'', StartFolder ''Zoo'', Playlist True ''yak'',
      Playlist True ''ant'', EndFolder, Playlist True ''apple'']"
  have v: "valid ?pc" by code_simp
  have m: "moves (sort_playlists ?pc) = [(1, 0), (3, 1), (3, 2), (4, 3), (5, 4)]" by code_simp
  have n: "map int [0..<length ?pc] = [0, 1, 2, 3, 4, 5]" by code_simp
  have a: "apply_moves [0, 1, 2, 3, 4, 5] [(1, 0), (3, 1), (3, 2), (4, 3), (5, 4)] =
      [1, 3, 2, 4, 5, 0 :: int]" by code_simp
  from moves_reach_target [OF v] show ?thesis
    unfolding m n a using v by simp
qed

section \<open>Containers whose folders all have children\<close>

lemma build_loop_positions:
  "build_loop pc i b = Inr b' \<Longrightarrow> unloaded pc = 0 \<Longrightarrow> folders_filled (chain b = []) pc \<Longrightarrow>
   mset (emitted (chain b')) + mset (held (parents b')) =
     mset (emitted (chain b)) + mset (held (parents b)) + mset (kept i pc)"
proof (induction pc i b rule: build_loop.induct)
  case (1 i b)
  then show ?case by simp
next
  case (2 is_loaded nm pc i b)
  from "2.prems"(2) have ld: "is_loaded" and un: "unloaded pc = 0"
    using unloaded_Cons_0 [of "Playlist is_loaded nm" pc nm] by auto
  let ?b = "b\<lparr>chain := chain b @ [Node (create_playlist_item i nm) []]\<rparr>"
  from "2.prems"(1) ld have "build_loop pc (i + 1) ?b = Inr b'" by simp
  moreover from "2.prems"(3) ld have "folders_filled (chain ?b = []) pc" by simp
  ultimately have "mset (emitted (chain b')) + mset (held (parents b')) =
      mset (emitted (chain ?b)) + mset (held (parents ?b)) + mset (kept (i + 1) pc)"
    using ld un by (intro "2.IH"(2)) simp_all
  then show ?case by (simp add: emitted_append create_playlist_item_def)
next
  case (3 nm pc i b)
  let ?b = "b\<lparr>parents := (create_playlist_item i nm, chain b) # parents b, chain := []\<rparr>"
  from "3.prems" have "mset (emitted (chain b')) + mset (held (parents b')) =
      mset (emitted (chain ?b)) + mset (held (parents ?b)) + mset (kept (i + 1) pc)"
    by (intro "3.IH") simp_all
  then show ?case by (simp add: create_playlist_item_def)
next
  case (4 pc i b)
  from "4.prems"(1) obtain p before outer where par: "parents b = (p, before) # outer"
    by (cases "parents b") auto
  from "4.prems"(3) have ne: "chain b \<noteq> []" by simp
  let ?b = "b\<lparr>chain := before @ [Node (p\<lparr>end_index := i\<rparr>) (chain b)], parents := outer\<rparr>"
  from "4.prems" par have "mset (emitted (chain b')) + mset (held (parents b')) =
      mset (emitted (chain ?b)) + mset (held (parents ?b)) + mset (kept (i + 1) pc)"
    by (intro "4.IH" [OF par refl]) simp_all
  with ne par show ?case by (simp add: emitted_append)
next
  case (5 pc i b)
  then show ?case by simp
qed

lemma kept_increasing: "sorted_wrt (<) (kept i pc) \<and> (\<forall>p \<in> set (kept i pc). i \<le> p)"
proof (induction i pc rule: kept.induct)
  case (1 i)
  then show ?case by simp
next
  case (2 i pc)
  then show ?case by fastforce
qed fastforce+

text \<open>
  When every folder has a child node the flattener is right, placeholders or not: for a
  fully loaded container with balanced folder markers the target holds every position
  that is not a placeholder's exactly once.
\<close>

theorem target_kept_positions:
  assumes "balanced pc" and "unloaded pc = 0" and "folders_filled True pc"
  shows "mset (target pc) = mset (kept 0 pc) \<and> distinct (target pc)"
proof -
  let ?b0 = "\<lparr>chain = [], parents = [], not_loaded = 0\<rparr>"
  from assms(1) obtain b where b: "build pc = Inr b" "parents b = []"
    "items_built pc = chain b" by (rule build_balanced) blast
  from b(1) have "build_loop pc 0 ?b0 = Inr b" by (simp add: build_def)
  from build_loop_positions [OF this assms(2)] assms(3) b(2)
  have "mset (emitted (chain b)) = mset (kept 0 pc)" by simp
  with b(3) have perm: "mset (target pc) = mset (kept 0 pc)"
    by (simp add: target_def mset_emitted_sort_list)
  from kept_increasing [of 0 pc] have "distinct (kept 0 pc)"
    by (simp add: strict_sorted_iff)
  with perm have "distinct (target pc)" by (metis mset_eq_imp_distinct_iff)
  with perm show ?thesis by simp
qed

theorem target_kept_positions_witness:
  "balanced [Playlist True ''b'', Placeholder, StartFolder ''F'', Placeholder,
      Playlist True ''a'', EndFolder] \<and>
   folders_filled True [Playlist True ''b'', Placeholder, StartFolder ''F'', Placeholder,
      Playlist True ''a'', EndFolder] \<and>
   kept 0 [Playlist True ''b'', Placeholder, StartFolder ''F'', Placeholder,
      Playlist True ''a'', EndFolder] = [0, 2, 4, 5] \<and>
   target [Playlist True ''b'', Placeholder, StartFolder ''F'', Placeholder,
      Playlist True ''a'', EndFolder] = [2, 4, 5, 0] \<and>
   mset [2, 4, 5, 0 :: int] = mset [0, 2, 4, 5]"
proof -
  let ?pc = "[Playlist True ''b'', Placeholder, StartFolder ''F'', Placeholder,
      Playlist True ''a'', EndFolder]"
  have h: "balanced ?pc" "unloaded ?pc = 0" "folders_filled True ?pc" by code_simp+
  have k: "kept 0 ?pc = [0, 2, 4, 5]" by code_simp
  have t: "target ?pc = [2, 4, 5, 0]" by code_simp
  from target_kept_positions [OF h] h show ?thesis unfolding k t by simp
qed

text \<open>
  In what \<^verbatim>\<open>_flatten_list\<close> stores for a tree, every node with children, at any depth,
  has its \<^verbatim>\<open>index\<close>, then exactly what is stored for its children, then its
  \<^verbatim>\<open>end_index\<close>, in one piece.
\<close>

lemma emitted_bracket:
  "n \<in> set (nodes_of f) \<Longrightarrow> children n \<noteq> [] \<Longrightarrow>
   \<exists>pre post. emitted f =
     pre @ index (item n) # emitted (children n) @ end_index (item n) # post"
proof (induction f rule: nodes_of.induct)
  case 1
  then show ?case by simp
next
  case (2 it ch nxt)
  from "2.prems"(1) consider "n = Node it ch" | "n \<in> set (nodes_of ch)" | "n \<in> set (nodes_of nxt)"
    by auto
  then show ?case
  proof cases
    case 1
    with "2.prems"(2) have "emitted (Node it ch # nxt) =
        [] @ index (item n) # emitted (children n) @ end_index (item n) # emitted nxt"
      by simp
    then show ?thesis by blast
  next
    case 2
    then have ch: "ch \<noteq> []" by auto
    from "2.IH"(1) [OF 2 "2.prems"(2)] obtain pre post where
      "emitted ch = pre @ index (item n) # emitted (children n) @ end_index (item n) # post"
      by blast
    with ch have "emitted (Node it ch # nxt) = (index it # pre) @ index (item n) #
        emitted (children n) @ end_index (item n) # (post @ end_index it # emitted nxt)"
      by simp
    then show ?thesis by blast
  next
    case 3
    from "2.IH"(2) [OF 3 "2.prems"(2)] obtain pre post where
      "emitted nxt = pre @ index (item n) # emitted (children n) @ end_index (item n) # post"
      by blast
    then have "emitted (Node it ch # nxt) =
        (index it # (if ch \<noteq> [] then emitted ch @ [end_index it] else []) @ pre) @
        index (item n) # emitted (children n) @ end_index (item n) # post"
      by simp
    then show ?thesis by blast
  qed
qed

end
